theory Spec2Isabelle
  imports Main "HOL-Library.Word"
begin

unbundle bit_operations_syntax

section \<open>Memory model\<close>

text \<open>
  The scanner of \<^verbatim>\<open>src/scanner.c\<close> keeps two singly linked stacks of heap-allocated
  frames. Frames are mutated in place (\<^verbatim>\<open>head->next = NULL\<close>) and released with
  \<^verbatim>\<open>free\<close>, so the embedding uses an explicit store: one typed heap per struct, each a list
  of cells indexed by address. A cell is \<open>Some v\<close> while the object is allocated and
  \<open>None\<close> once it has been freed; an address beyond the list was never allocated.
  \<^verbatim>\<open>malloc\<close> and \<^verbatim>\<open>calloc\<close> are taken to succeed and to return a fresh address (the code
  never tests their result). \<^verbatim>\<open>NULL\<close> is \<open>None\<close>.

  \<^verbatim>\<open>size_t\<close> is taken to be 64 bits wide and \<^verbatim>\<open>uint32_t\<close> is 32 bits wide.

  The file is not accepted by a C compiler as it stands: it assigns to \<^verbatim>\<open>const\<close> fields,
  calls \<^verbatim>\<open>calloc\<close> with one argument, uses a cast as the target of \<^verbatim>\<open>+=\<close> in its
  write macros, and has a stray semicolon in a loop header. The embedding gives each of
  these its evident meaning (the field is set, the object is zeroed, the write pointer
  advances); the places where a name has to be read as another one are noted where they
  occur. Nothing else is repaired: calls and control flow are as written.
\<close>

type_synonym addr = nat
type_synonym uint32_t = "32 word"
type_synonym size_t = "64 word"
type_synonym byte = "8 word"

text \<open>
  How a call can fail to return a value: a failing \<^verbatim>\<open>assert\<close> (\<^verbatim>\<open>assert.h\<close> is included and
  \<^verbatim>\<open>NDEBUG\<close> is not defined, so it aborts the process), a dereference or \<^verbatim>\<open>free\<close> of a pointer
  that is not allocated, and control reaching the end of a non-void function without a
  \<^verbatim>\<open>return\<close>. A call that never returns at all is the value \<open>None\<close> of the option
  that wraps the result of the recursive functions below.
\<close>

datatype error = AssertionFailed | InvalidPointer | MissingReturn

record brace_stack =
  depth :: size_t
  closing_brace :: uint32_t
  "next" :: "addr option"

text \<open>
  The anonymous union of \<^verbatim>\<open>struct heredoc_stack\<close> overlays six one-bit fields on the word
  \<^verbatim>\<open>all_flags\<close>; the record keeps the word. The sentinel is a pointer to an array of code
  points: \<open>None\<close> is the null pointer, \<open>Some cs\<close> an array holding \<open>cs\<close>.
\<close>

record heredoc_stack =
  depth :: size_t
  sentinel :: "uint32_t list option"
  sentinel_length :: size_t
  all_flags :: uint32_t
  "next" :: "addr option"

record scanner_state =
  current_brace :: "addr option"
  current_heredoc :: "addr option"

record memory =
  braces :: "brace_stack option list"
  heredocs :: "heredoc_stack option list"
  states :: "scanner_state option list"

definition deref :: "'a option list \<Rightarrow> addr \<Rightarrow> 'a option" where
  "deref cells p = (if p < length cells then cells ! p else None)"

definition free_brace :: "memory \<Rightarrow> addr \<Rightarrow> error + memory" where
  "free_brace m p =
     (case deref (braces m) p of
        None \<Rightarrow> Inl InvalidPointer
      | Some f \<Rightarrow> Inr (m\<lparr>braces := (braces m)[p := None]\<rparr>))"

definition free_heredoc :: "memory \<Rightarrow> addr \<Rightarrow> error + memory" where
  "free_heredoc m p =
     (case deref (heredocs m) p of
        None \<Rightarrow> Inl InvalidPointer
      | Some f \<Rightarrow> Inr (m\<lparr>heredocs := (heredocs m)[p := None]\<rparr>))"

definition free_state :: "memory \<Rightarrow> addr \<Rightarrow> error + memory" where
  "free_state m p =
     (case deref (states m) p of
        None \<Rightarrow> Inl InvalidPointer
      | Some s \<Rightarrow> Inr (m\<lparr>states := (states m)[p := None]\<rparr>))"

section \<open>The heredoc stack\<close>

text \<open>
  \<^verbatim>\<open>heredoc_stack_free\<close> calls itself on \<^verbatim>\<open>head\<close>, not on \<^verbatim>\<open>head->next\<close>. The recursion
  is kept as written.
\<close>

partial_function (option) heredoc_stack_free :: "memory \<Rightarrow> addr option \<Rightarrow> (error + memory) option" where
  "heredoc_stack_free m head =
     (case head of
        None \<Rightarrow> Some (Inr m)
      | Some p \<Rightarrow>
          (case deref (heredocs m) p of
             None \<Rightarrow> Some (Inl InvalidPointer)
           | Some f \<Rightarrow>
               if heredoc_stack.next f = head then Some (Inl AssertionFailed)
               else Option.bind (heredoc_stack_free m head)
                      (\<lambda>r. case r of
                             Inl e \<Rightarrow> Some (Inl e)
                           | Inr m' \<Rightarrow> Some (free_heredoc m' p))))"

declare heredoc_stack_free.simps [code]

text \<open>
  The body of \<^verbatim>\<open>heredoc_stack_push\<close> is the assertion alone: nothing is allocated, the
  sentinel is not read, and control reaches the closing brace of a function that returns a
  pointer.
\<close>

definition heredoc_stack_push :: "memory \<Rightarrow> addr option \<Rightarrow> uint32_t list option \<Rightarrow> error + memory \<times> addr option" where
  "heredoc_stack_push m head sentinel_arg =
     (case head of
        None \<Rightarrow> Inl AssertionFailed
      | Some p \<Rightarrow> Inl MissingReturn)"

definition heredoc_stack_pop :: "memory \<Rightarrow> addr option \<Rightarrow> (error + memory \<times> addr option) option" where
  "heredoc_stack_pop m head =
     (case head of
        None \<Rightarrow> Some (Inl AssertionFailed)
      | Some p \<Rightarrow>
          (case deref (heredocs m) p of
             None \<Rightarrow> Some (Inl InvalidPointer)
           | Some f \<Rightarrow>
               if \<not> 0 < heredoc_stack.depth f then Some (Inl AssertionFailed)
               else if heredoc_stack.next f = None then Some (Inl AssertionFailed)
               else
                 let nxt = heredoc_stack.next f;
                     m1 = m\<lparr>heredocs := (heredocs m)[p := Some (f\<lparr>heredoc_stack.next := None\<rparr>)]\<rparr>
                 in Option.bind (heredoc_stack_free m1 head)
                      (\<lambda>r. case r of
                             Inl e \<Rightarrow> Some (Inl e)
                           | Inr m2 \<Rightarrow> Some (Inr (m2, nxt)))))"

section \<open>The brace stack\<close>

partial_function (option) brace_stack_free :: "memory \<Rightarrow> addr option \<Rightarrow> (error + memory) option" where
  "brace_stack_free m head =
     (case head of
        None \<Rightarrow> Some (Inr m)
      | Some p \<Rightarrow>
          (case deref (braces m) p of
             None \<Rightarrow> Some (Inl InvalidPointer)
           | Some f \<Rightarrow>
               if brace_stack.next f = head then Some (Inl AssertionFailed)
               else Option.bind (brace_stack_free m (brace_stack.next f))
                      (\<lambda>r. case r of
                             Inl e \<Rightarrow> Some (Inl e)
                           | Inr m' \<Rightarrow> Some (free_brace m' p))))"

declare brace_stack_free.simps [code]

text \<open>
  \<^verbatim>\<open>brace_table.h\<close> is not part of the sources. The two names the scanner takes from it are
  parameters of the model: the bound \<^verbatim>\<open>BACE_TABLE_MAX\<close> and the array \<^verbatim>\<open>BRACE_TABLE\<close>, given
  by its entry at each index (the code reads it below the bound only).
\<close>

record brace_table =
  BACE_TABLE_MAX :: nat
  BRACE_TABLE :: "uint32_t \<Rightarrow> uint32_t"

text \<open>
  The assignment in \<^verbatim>\<open>brace_stack_push\<close> names the field \<^verbatim>\<open>close\<close>; the struct's only
  candidate is \<^verbatim>\<open>closing_brace\<close>.
\<close>

definition brace_stack_push :: "brace_table \<Rightarrow> memory \<Rightarrow> addr option \<Rightarrow> uint32_t \<Rightarrow> error + memory \<times> addr option" where
  "brace_stack_push tbl m head brace =
     (case head of
        None \<Rightarrow> Inl AssertionFailed
      | Some p \<Rightarrow>
          let closing =
                (if unat brace < BACE_TABLE_MAX tbl \<and> BRACE_TABLE tbl brace \<noteq> 0
                 then BRACE_TABLE tbl brace else brace);
              new_head = length (braces m)
          in (case deref (braces m) p of
                None \<Rightarrow> Inl InvalidPointer
              | Some f \<Rightarrow>
                  Inr (m\<lparr>braces := braces m @
                          [Some \<lparr>brace_stack.depth = brace_stack.depth f + 1,
                                 closing_brace = closing,
                                 brace_stack.next = head\<rparr>]\<rparr>,
                       Some new_head)))"

text \<open>
  An opening character is in the pair table when it indexes the table below the bound and
  its entry is not zero: the test of \<^verbatim>\<open>brace_stack_push\<close>.
\<close>

definition in_pair_table :: "brace_table \<Rightarrow> uint32_t \<Rightarrow> bool" where
  "in_pair_table tbl c = (unat c < BACE_TABLE_MAX tbl \<and> BRACE_TABLE tbl c \<noteq> 0)"

definition brace_stack_pop :: "memory \<Rightarrow> addr option \<Rightarrow> (error + memory \<times> addr option) option" where
  "brace_stack_pop m head =
     (case head of
        None \<Rightarrow> Some (Inl AssertionFailed)
      | Some p \<Rightarrow>
          (case deref (braces m) p of
             None \<Rightarrow> Some (Inl InvalidPointer)
           | Some f \<Rightarrow>
               if \<not> 0 < brace_stack.depth f then Some (Inl AssertionFailed)
               else if brace_stack.next f = None then Some (Inl AssertionFailed)
               else
                 let nxt = brace_stack.next f;
                     m1 = m\<lparr>braces := (braces m)[p := Some (f\<lparr>brace_stack.next := None\<rparr>)]\<rparr>
                 in Option.bind (brace_stack_free m1 head)
                      (\<lambda>r. case r of
                             Inl e \<Rightarrow> Some (Inl e)
                           | Inr m2 \<Rightarrow> Some (Inr (m2, nxt)))))"

section \<open>Create and destroy\<close>

text \<open>
  \<^verbatim>\<open>calloc\<close> zeroes the two root frames: depth 0, no delimiter, no sentinel, no flags and a
  null \<^verbatim>\<open>next\<close>.
\<close>

definition tree_sitter_raku_external_scanner_create :: "memory \<Rightarrow> memory \<times> addr" where
  "tree_sitter_raku_external_scanner_create m =
     (let new_state = length (states m);
          brace_root = length (braces m);
          heredoc_root = length (heredocs m)
      in (m\<lparr>braces := braces m @
               [Some \<lparr>brace_stack.depth = 0, closing_brace = 0, brace_stack.next = None\<rparr>],
            heredocs := heredocs m @
               [Some \<lparr>heredoc_stack.depth = 0, sentinel = None, sentinel_length = 0,
                      all_flags = 0, heredoc_stack.next = None\<rparr>],
            states := states m @
               [Some \<lparr>current_brace = Some brace_root, current_heredoc = Some heredoc_root\<rparr>]\<rparr>,
          new_state))"

definition tree_sitter_raku_external_scanner_destroy :: "memory \<Rightarrow> addr option \<Rightarrow> (error + memory) option" where
  "tree_sitter_raku_external_scanner_destroy m state =
     (case state of
        None \<Rightarrow> Some (Inl AssertionFailed)
      | Some sp \<Rightarrow>
          (case deref (states m) sp of
             None \<Rightarrow> Some (Inl InvalidPointer)
           | Some s \<Rightarrow>
               if current_brace s = None then Some (Inl AssertionFailed)
               else if current_heredoc s = None then Some (Inl AssertionFailed)
               else Option.bind (brace_stack_free m (current_brace s))
                      (\<lambda>r1. case r1 of
                              Inl e \<Rightarrow> Some (Inl e)
                            | Inr m1 \<Rightarrow>
                                Option.bind (heredoc_stack_free m1 (current_heredoc s))
                                  (\<lambda>r2. case r2 of
                                          Inl e \<Rightarrow> Some (Inl e)
                                        | Inr m2 \<Rightarrow> Some (free_state m2 sp)))))"

section \<open>Serialization\<close>

text \<open>
  \<^verbatim>\<open>BUF_WRITE\<close> stores the object representation of a value at the write pointer and
  advances the pointer by its size. The embedding fixes a little-endian target: a
  \<^verbatim>\<open>uint32_t\<close> is four bytes and a \<^verbatim>\<open>size_t\<close> eight, least significant byte first.
\<close>

fun le_bytes :: "nat \<Rightarrow> nat \<Rightarrow> byte list" where
  "le_bytes 0 v = []"
| "le_bytes (Suc n) v = of_nat (v mod 256) # le_bytes n (v div 256)"

fun le_val :: "byte list \<Rightarrow> nat" where
  "le_val [] = 0"
| "le_val (b # bs) = unat b + 256 * le_val bs"

definition le32 :: "uint32_t \<Rightarrow> byte list" where
  "le32 w = le_bytes 4 (unat w)"

definition le64 :: "size_t \<Rightarrow> byte list" where
  "le64 w = le_bytes 8 (unat w)"

text \<open>
  The serializer's output is modelled by the bytes it has stored, in order, from
  \<^verbatim>\<open>buffer[0]\<close> on: the write pointer \<^verbatim>\<open>head\<close> is \<^verbatim>\<open>buffer\<close> plus the length of that list.
  The code never compares \<^verbatim>\<open>head\<close> with the end of the buffer before a store, so a list
  longer than the buffer's capacity means that the bytes beyond the capacity were stored
  past the end of the buffer.

  First loop: one \<^verbatim>\<open>uint32_t\<close> per frame above the root, starting at the current frame.
\<close>

partial_function (option) serialize_brace_loop :: "memory \<Rightarrow> addr option \<Rightarrow> byte list \<Rightarrow> (byte list \<times> error option) option" where
  "serialize_brace_loop m elem out =
     (case elem of
        None \<Rightarrow> Some (out, Some InvalidPointer)
      | Some p \<Rightarrow>
          (case deref (braces m) p of
             None \<Rightarrow> Some (out, Some InvalidPointer)
           | Some f \<Rightarrow>
               if 0 < brace_stack.depth f then
                 (if brace_stack.next f = None then Some (out, Some AssertionFailed)
                  else serialize_brace_loop m (brace_stack.next f) (out @ le32 (closing_brace f)))
               else Some (out, None)))"

declare serialize_brace_loop.simps [code]

text \<open>
  Second loop. Its body names \<^verbatim>\<open>elem\<close>, the variable of the first loop, which is out of
  scope there and has no \<^verbatim>\<open>all_flags\<close> or \<^verbatim>\<open>sentinel\<close> field; the loop's own variable
  \<^verbatim>\<open>hd\<close> (here \<open>hdp\<close>) is the only frame the body can mean. \<^verbatim>\<open>BUF_WRITE_ARRAY\<close> stores the count as a
  \<^verbatim>\<open>size_t\<close> and copies \<^verbatim>\<open>count * sizeof(uint32_t)\<close> bytes from the sentinel array; the
  product is computed in \<^verbatim>\<open>size_t\<close>.
\<close>

partial_function (option) serialize_heredoc_loop :: "memory \<Rightarrow> addr option \<Rightarrow> byte list \<Rightarrow> (byte list \<times> error option) option" where
  "serialize_heredoc_loop m hdp out =
     (case hdp of
        None \<Rightarrow> Some (out, Some InvalidPointer)
      | Some p \<Rightarrow>
          (case deref (heredocs m) p of
             None \<Rightarrow> Some (out, Some InvalidPointer)
           | Some f \<Rightarrow>
               if 0 < heredoc_stack.depth f then
                 (if heredoc_stack.next f = None then Some (out, Some AssertionFailed)
                  else
                    let out1 = out @ le32 (all_flags f) @ le64 (sentinel_length f);
                        nbytes = unat (sentinel_length f * 4)
                    in (case sentinel f of
                          None \<Rightarrow> Some (out1, Some InvalidPointer)
                        | Some cs \<Rightarrow>
                            if nbytes \<le> 4 * length cs then
                              serialize_heredoc_loop m (heredoc_stack.next f)
                                (out1 @ take nbytes (concat (map le32 cs)))
                            else Some (out1, Some InvalidPointer)))
               else Some (out, None)))"

declare serialize_heredoc_loop.simps [code]

text \<open>
  \<^verbatim>\<open>TREE_SITTER_SERIALIZATION_BUFFER_SIZE\<close> comes from the host's \<^verbatim>\<open>tree_sitter/parser.h\<close>,
  which is not part of the sources; it is the parameter \<open>buffer_size\<close>. The result pairs
  the bytes stored with the outcome of the call; the returned \<^verbatim>\<open>head - buffer\<close> is converted
  to \<^verbatim>\<open>uint32_t\<close>.
\<close>

definition tree_sitter_raku_external_scanner_serialize :: "nat \<Rightarrow> memory \<Rightarrow> addr option \<Rightarrow> (byte list \<times> (error + uint32_t)) option" where
  "tree_sitter_raku_external_scanner_serialize buffer_size m state =
     (case state of
        None \<Rightarrow> Some ([], Inl AssertionFailed)
      | Some sp \<Rightarrow>
          (case deref (states m) sp of
             None \<Rightarrow> Some ([], Inl InvalidPointer)
           | Some s \<Rightarrow>
               (case current_brace s of
                  None \<Rightarrow> Some ([], Inl AssertionFailed)
                | Some bp \<Rightarrow>
                    (case current_heredoc s of
                       None \<Rightarrow> Some ([], Inl AssertionFailed)
                     | Some hp \<Rightarrow>
                         (case deref (braces m) bp of
                            None \<Rightarrow> Some ([], Inl InvalidPointer)
                          | Some bf \<Rightarrow>
                              Option.bind (serialize_brace_loop m (Some bp) (le64 (brace_stack.depth bf)))
                                (\<lambda>(out1, e1). case e1 of
                                   Some e \<Rightarrow> Some (out1, Inl e)
                                 | None \<Rightarrow>
                                     if \<not> length out1 \<le> buffer_size then Some (out1, Inl AssertionFailed)
                                     else
                                       (case deref (heredocs m) hp of
                                          None \<Rightarrow> Some (out1, Inl InvalidPointer)
                                        | Some hf \<Rightarrow>
                                            Option.bind
                                              (serialize_heredoc_loop m (Some hp)
                                                 (out1 @ le64 (heredoc_stack.depth hf)))
                                              (\<lambda>(out2, e2). case e2 of
                                                 Some e \<Rightarrow> Some (out2, Inl e)
                                               | None \<Rightarrow>
                                                   if \<not> length out2 \<le> buffer_size
                                                   then Some (out2, Inl AssertionFailed)
                                                   else Some (out2, Inr (of_nat (length out2)))))))))))"

section \<open>Sequences of stack operations\<close>

text \<open>
  The scan function that would call push and pop is not in the sources. A run applies a
  list of operations to the current top of one stack, each on the memory the previous one
  left, and stops at the first call that does not return a stack.
\<close>

datatype brace_op = Push uint32_t | Pop

fun run_brace_ops :: "brace_table \<Rightarrow> memory \<Rightarrow> addr option \<Rightarrow> brace_op list \<Rightarrow> (error + memory \<times> addr option) option" where
  "run_brace_ops tbl m head [] = Some (Inr (m, head))"
| "run_brace_ops tbl m head (Push c # ops) =
     (case brace_stack_push tbl m head c of
        Inl e \<Rightarrow> Some (Inl e)
      | Inr (m', head') \<Rightarrow> run_brace_ops tbl m' head' ops)"
| "run_brace_ops tbl m head (Pop # ops) =
     (case brace_stack_pop m head of
        None \<Rightarrow> None
      | Some (Inl e) \<Rightarrow> Some (Inl e)
      | Some (Inr (m', head')) \<Rightarrow> run_brace_ops tbl m' head' ops)"

datatype heredoc_op = HPush "uint32_t list option" | HPop

fun run_heredoc_ops :: "memory \<Rightarrow> addr option \<Rightarrow> heredoc_op list \<Rightarrow> (error + memory \<times> addr option) option" where
  "run_heredoc_ops m head [] = Some (Inr (m, head))"
| "run_heredoc_ops m head (HPush s # ops) =
     (case heredoc_stack_push m head s of
        Inl e \<Rightarrow> Some (Inl e)
      | Inr (m', head') \<Rightarrow> run_heredoc_ops m' head' ops)"
| "run_heredoc_ops m head (HPop # ops) =
     (case heredoc_stack_pop m head of
        None \<Rightarrow> None
      | Some (Inl e) \<Rightarrow> Some (Inl e)
      | Some (Inr (m', head')) \<Rightarrow> run_heredoc_ops m' head' ops)"

text \<open>
  The depth a sequence of brace operations leads to from depth \<open>d\<close>: pushes minus pops,
  and no depth at all once a pop meets the root.
\<close>

fun net_depth :: "brace_op list \<Rightarrow> nat \<Rightarrow> nat option" where
  "net_depth [] d = Some d"
| "net_depth (Push c # ops) d = net_depth ops (Suc d)"
| "net_depth (Pop # ops) d = (case d of 0 \<Rightarrow> None | Suc d' \<Rightarrow> net_depth ops d')"

text \<open>
  Storing a new top of the brace stack in the state object, as in
  \<^verbatim>\<open>state->current_brace = head\<close>.
\<close>

definition set_current_brace :: "memory \<Rightarrow> addr \<Rightarrow> addr option \<Rightarrow> memory" where
  "set_current_brace m sp head =
     (case deref (states m) sp of
        None \<Rightarrow> m
      | Some s \<Rightarrow> m\<lparr>states := (states m)[sp := Some (s\<lparr>current_brace := head\<rparr>)]\<rparr>)"

section \<open>Well-formed stacks\<close>

text \<open>
  \<open>brace_chain m head fs\<close>: following \<^verbatim>\<open>next\<close> from \<open>head\<close> in memory \<open>m\<close> visits
  exactly the frames \<open>fs\<close> (address and contents, top first) and ends at a null
  pointer, and each frame's depth is the number of frames beneath it. The last frame of a
  non-empty chain is the root.
\<close>

fun brace_chain :: "memory \<Rightarrow> addr option \<Rightarrow> (addr \<times> brace_stack) list \<Rightarrow> bool" where
  "brace_chain m head [] = (head = None)"
| "brace_chain m head ((p, f) # rest) =
     (head = Some p \<and> deref (braces m) p = Some f \<and>
      unat (brace_stack.depth f) = length rest \<and>
      brace_chain m (brace_stack.next f) rest)"

text \<open>
  A frame's sentinel is usable when the pointer is not null, the array has
  \<^verbatim>\<open>sentinel_length\<close> elements, and its size in bytes fits \<^verbatim>\<open>size_t\<close>.
\<close>

definition sentinel_ok :: "heredoc_stack \<Rightarrow> bool" where
  "sentinel_ok f =
     (case sentinel f of
        None \<Rightarrow> False
      | Some cs \<Rightarrow> length cs = unat (sentinel_length f) \<and> 4 * length cs < 2 ^ 64)"

fun heredoc_chain :: "memory \<Rightarrow> addr option \<Rightarrow> (addr \<times> heredoc_stack) list \<Rightarrow> bool" where
  "heredoc_chain m head [] = (head = None)"
| "heredoc_chain m head ((p, f) # rest) =
     (head = Some p \<and> deref (heredocs m) p = Some f \<and>
      unat (heredoc_stack.depth f) = length rest \<and>
      (rest = [] \<or> sentinel_ok f) \<and>
      heredoc_chain m (heredoc_stack.next f) rest)"

text \<open>
  \<open>stacks_at m sp bs hs\<close>: \<open>sp\<close> is an allocated scanner state whose brace stack is
  the non-empty chain \<open>bs\<close> and whose heredoc stack is the non-empty chain \<open>hs\<close>.
\<close>

definition stacks_at :: "memory \<Rightarrow> addr \<Rightarrow> (addr \<times> brace_stack) list \<Rightarrow> (addr \<times> heredoc_stack) list \<Rightarrow> bool" where
  "stacks_at m sp bs hs =
     (case deref (states m) sp of
        None \<Rightarrow> False
      | Some s \<Rightarrow>
          bs \<noteq> [] \<and> brace_chain m (current_brace s) bs \<and>
          hs \<noteq> [] \<and> heredoc_chain m (current_heredoc s) hs)"

text \<open>The roots are as \<^verbatim>\<open>calloc\<close> left them.\<close>

definition roots_zeroed :: "(addr \<times> brace_stack) list \<Rightarrow> (addr \<times> heredoc_stack) list \<Rightarrow> bool" where
  "roots_zeroed bs hs =
     (bs \<noteq> [] \<and> hs \<noteq> [] \<and> closing_brace (snd (last bs)) = 0 \<and>
      sentinel (snd (last hs)) = None \<and> sentinel_length (snd (last hs)) = 0 \<and>
      all_flags (snd (last hs)) = 0)"

text \<open>What a stack holds, apart from the addresses of its frames.\<close>

definition brace_view :: "(addr \<times> brace_stack) list \<Rightarrow> (size_t \<times> uint32_t) list" where
  "brace_view bs = map (\<lambda>(p, f). (brace_stack.depth f, closing_brace f)) bs"

definition heredoc_view :: "(addr \<times> heredoc_stack) list \<Rightarrow> (size_t \<times> uint32_t \<times> size_t \<times> uint32_t list option) list" where
  "heredoc_view hs =
     map (\<lambda>(p, f). (heredoc_stack.depth f, all_flags f, sentinel_length f, sentinel f)) hs"

text \<open>All addresses of a chain released, the deepest first.\<close>

definition release :: "addr list \<Rightarrow> 'a option list \<Rightarrow> 'a option list" where
  "release ps cells = foldr (\<lambda>p cs. cs[p := None]) ps cells"

section \<open>The byte layout\<close>

text \<open>
  The layout the serializer is expected to produce for a brace chain \<open>bs\<close> and a heredoc
  chain \<open>hs\<close>, both top first: the depth of the top frame, then one entry per frame except
  the last one of the chain, the root.
\<close>

definition encode_heredoc :: "heredoc_stack \<Rightarrow> byte list" where
  "encode_heredoc f =
     le32 (all_flags f) @ le64 (sentinel_length f) @
     (case sentinel f of None \<Rightarrow> [] | Some cs \<Rightarrow> concat (map le32 cs))"

definition brace_section :: "(addr \<times> brace_stack) list \<Rightarrow> byte list" where
  "brace_section bs =
     le64 (brace_stack.depth (snd (hd bs))) @
     concat (map (\<lambda>(p, f). le32 (closing_brace f)) (butlast bs))"

definition heredoc_section :: "(addr \<times> heredoc_stack) list \<Rightarrow> byte list" where
  "heredoc_section hs =
     le64 (heredoc_stack.depth (snd (hd hs))) @
     concat (map (\<lambda>(p, f). encode_heredoc f) (butlast hs))"

section \<open>The read macros\<close>

text \<open>
  The sources end with two macros for reading a buffer back, \<^verbatim>\<open>BUF_READ\<close> and
  \<^verbatim>\<open>BUF_READ_ARRAY\<close>, which are undefined again at once; no function uses them. They are
  embedded for a buffer of known length, with the read pointer as an index into it and
  \<open>sz\<close> for \<^verbatim>\<open>sizeof(type)\<close>; a read that leaves the buffer is an invalid access.
  \<^verbatim>\<open>BUF_READ\<close> yields the value read and the advanced pointer. \<^verbatim>\<open>BUF_READ_ARRAY\<close> reads
  a \<^verbatim>\<open>size_t\<close> length, advances the pointer past it, and copies length times
  \<^verbatim>\<open>sizeof(type)\<close> bytes from there (into the storage of \<^verbatim>\<open>dest\<close>, which is not
  modelled); it does not advance the pointer past the bytes copied, and it compares the
  length with nothing.
\<close>

definition BUF_READ :: "nat \<Rightarrow> byte list \<Rightarrow> nat \<Rightarrow> error + nat \<times> nat" where
  "BUF_READ sz buffer ptr =
     (if ptr + sz \<le> length buffer
      then Inr (le_val (take sz (drop ptr buffer)), ptr + sz)
      else Inl InvalidPointer)"

definition BUF_READ_ARRAY :: "nat \<Rightarrow> byte list \<Rightarrow> nat \<Rightarrow> error + byte list \<times> nat" where
  "BUF_READ_ARRAY sz buffer ptr =
     (if ptr + 8 \<le> length buffer then
        let len = of_nat (le_val (take 8 (drop ptr buffer))) :: size_t;
            ptr1 = ptr + 8;
            nbytes = unat (len * of_nat sz)
        in if ptr1 + nbytes \<le> length buffer
           then Inr (take nbytes (drop ptr1 buffer), ptr1)
           else Inl InvalidPointer
      else Inl InvalidPointer)"

section \<open>Deserialization\<close>

text \<open>
  Modelled from the spec: the error value of the missing deserializer. The sources stop
  after the two read macros \<^verbatim>\<open>BUF_READ\<close> and \<^verbatim>\<open>BUF_READ_ARRAY\<close>, which nothing uses; there
  is no deserializer. The definitions below follow the specification's sections 4.3, 6 and
  7: the layout is the encoder's (brace count, that many closing delimiters, heredoc count,
  then per heredoc the flags word, the sentinel's length and that many code points), in the
  encoder's order and field widths; a slice of length zero means a fresh state as after
  Create; a count or length that the rest of the slice cannot satisfy is rejected with
  DeserializationCorruption, and no byte beyond the slice is read. Bytes left over after
  the last declared item are ignored.
\<close>

datatype codec_error = DeserializationCorruption

text \<open>
  Modelled from the spec: reading one fixed-width field of the missing deserializer. A
  field that the rest of the slice cannot hold is not read.
\<close>

definition read_u32 :: "byte list \<Rightarrow> (uint32_t \<times> byte list) option" where
  "read_u32 bs = (if length bs < 4 then None else Some (of_nat (le_val (take 4 bs)), drop 4 bs))"

text \<open>Modelled from the spec: the same for a count or length field of the missing deserializer.\<close>

definition read_u64 :: "byte list \<Rightarrow> (size_t \<times> byte list) option" where
  "read_u64 bs = (if length bs < 8 then None else Some (of_nat (le_val (take 8 bs)), drop 8 bs))"

text \<open>
  Modelled from the spec: reading a declared number of closing delimiters or code points
  in the missing deserializer; it fails when the slice ends before the declared number has
  been read.
\<close>

fun read_u32s :: "nat \<Rightarrow> byte list \<Rightarrow> (uint32_t list \<times> byte list) option" where
  "read_u32s 0 bs = Some ([], bs)"
| "read_u32s (Suc n) bs =
     (case read_u32 bs of
        None \<Rightarrow> None
      | Some (c, bs1) \<Rightarrow>
          (case read_u32s n bs1 of
             None \<Rightarrow> None
           | Some (cs, bs2) \<Rightarrow> Some (c # cs, bs2)))"

text \<open>One decoded heredoc entry: flags word, declared length, code points.\<close>

type_synonym heredoc_entry = "uint32_t \<times> size_t \<times> uint32_t list"

text \<open>
  Modelled from the spec: reading a declared number of heredoc entries in the missing
  deserializer, each a flags word, a sentinel length and that many code points.
\<close>

fun read_heredocs :: "nat \<Rightarrow> byte list \<Rightarrow> (heredoc_entry list \<times> byte list) option" where
  "read_heredocs 0 bs = Some ([], bs)"
| "read_heredocs (Suc n) bs =
     (case read_u32 bs of
        None \<Rightarrow> None
      | Some (flags, bs1) \<Rightarrow>
          (case read_u64 bs1 of
             None \<Rightarrow> None
           | Some (len, bs2) \<Rightarrow>
               (case read_u32s (unat len) bs2 of
                  None \<Rightarrow> None
                | Some (cs, bs3) \<Rightarrow>
                    (case read_heredocs n bs3 of
                       None \<Rightarrow> None
                     | Some (es, bs4) \<Rightarrow> Some ((flags, len, cs) # es, bs4)))))"

text \<open>
  Modelled from the spec: how the missing deserializer reconstructs a stack. Frames are
  rebuilt from the root upwards: each new frame sits on the current top, one deeper than
  it.
\<close>

fun rebuild_braces :: "memory \<Rightarrow> addr option \<Rightarrow> nat \<Rightarrow> uint32_t list \<Rightarrow> memory \<times> addr option" where
  "rebuild_braces m head d [] = (m, head)"
| "rebuild_braces m head d (c # cs) =
     rebuild_braces
       (m\<lparr>braces := braces m @
           [Some \<lparr>brace_stack.depth = of_nat (Suc d), closing_brace = c,
                  brace_stack.next = head\<rparr>]\<rparr>)
       (Some (length (braces m))) (Suc d) cs"

text \<open>Modelled from the spec: the same for the heredoc stack of the missing deserializer.\<close>

fun rebuild_heredocs :: "memory \<Rightarrow> addr option \<Rightarrow> nat \<Rightarrow> heredoc_entry list \<Rightarrow> memory \<times> addr option" where
  "rebuild_heredocs m head d [] = (m, head)"
| "rebuild_heredocs m head d ((flags, len, cs) # es) =
     rebuild_heredocs
       (m\<lparr>heredocs := heredocs m @
           [Some \<lparr>heredoc_stack.depth = of_nat (Suc d), sentinel = Some cs,
                  sentinel_length = len, all_flags = flags,
                  heredoc_stack.next = head\<rparr>]\<rparr>)
       (Some (length (heredocs m))) (Suc d) es"

text \<open>
  Modelled from the spec: Deserialize itself, which the sources lack. A slice of length
  zero gives the state Create gives; otherwise the four parts of the layout are read in
  order, any of them failing rejects the slice, and the state is rebuilt on fresh roots.
\<close>

definition deserialize :: "memory \<Rightarrow> byte list \<Rightarrow> codec_error + memory \<times> addr" where
  "deserialize m bs =
     (if bs = [] then Inr (tree_sitter_raku_external_scanner_create m)
      else
        (case read_u64 bs of
           None \<Rightarrow> Inl DeserializationCorruption
         | Some (nb, bs1) \<Rightarrow>
             (case read_u32s (unat nb) bs1 of
                None \<Rightarrow> Inl DeserializationCorruption
              | Some (cs, bs2) \<Rightarrow>
                  (case read_u64 bs2 of
                     None \<Rightarrow> Inl DeserializationCorruption
                   | Some (nh, bs3) \<Rightarrow>
                       (case read_heredocs (unat nh) bs3 of
                          None \<Rightarrow> Inl DeserializationCorruption
                        | Some (es, bs4) \<Rightarrow>
                            (case tree_sitter_raku_external_scanner_create m of
                               (m1, sp) \<Rightarrow>
                                 (case rebuild_braces m1 (Some (length (braces m))) 0 (rev cs) of
                                    (m2, bh) \<Rightarrow>
                                      (case rebuild_heredocs m2 (Some (length (heredocs m))) 0 (rev es) of
                                         (m3, hh) \<Rightarrow>
                                           Inr (m3\<lparr>states := (states m3)
                                                    [sp := Some \<lparr>current_brace = bh,
                                                                 current_heredoc = hh\<rparr>]\<rparr>,
                                                sp)))))))))"

text \<open>
  The layout of the specification's section 4.3, with the encoder's order and field widths:
  the wire form of a list of closing delimiters and a list of heredoc entries.
\<close>

definition wire_entry :: "heredoc_entry \<Rightarrow> byte list" where
  "wire_entry e = (case e of (flags, len, cs) \<Rightarrow> le32 flags @ le64 len @ concat (map le32 cs))"

definition wire :: "uint32_t list \<Rightarrow> heredoc_entry list \<Rightarrow> byte list" where
  "wire cs es =
     le64 (of_nat (length cs)) @ concat (map le32 cs) @
     le64 (of_nat (length es)) @ concat (map wire_entry es)"

text \<open>
  A pair of lists can be declared on the wire when both counts fit \<^verbatim>\<open>size_t\<close> and every
  entry's declared length is the number of its code points.
\<close>

definition declarable :: "uint32_t list \<Rightarrow> heredoc_entry list \<Rightarrow> bool" where
  "declarable cs es =
     (length cs < 2 ^ 64 \<and> length es < 2 ^ 64 \<and>
      list_all (\<lambda>(flags, len, ps). unat len = length ps) es)"

section \<open>Concrete inputs\<close>

definition empty_memory :: memory where
  "empty_memory = \<lparr>braces = [], heredocs = [], states = []\<rparr>"

text \<open>A pair table with the four ASCII bracket pairs.\<close>

definition ascii_table :: brace_table where
  "ascii_table =
     \<lparr>BACE_TABLE_MAX = 128,
      BRACE_TABLE = (\<lambda>c. if c = 0x28 then 0x29 else if c = 0x3C then 0x3E
                          else if c = 0x5B then 0x5D else if c = 0x7B then 0x7D else 0)\<rparr>"

text \<open>
  A state with two brace frames and one heredoc frame above the roots: closing delimiters
  \<open>)\<close> and \<open>]\<close>, and a heredoc with sentinel \<open>END\<close> whose flags word is 2.
\<close>

definition example_brace_root :: brace_stack where
  "example_brace_root = \<lparr>brace_stack.depth = 0, closing_brace = 0, brace_stack.next = None\<rparr>"

definition example_brace_1 :: brace_stack where
  "example_brace_1 = \<lparr>brace_stack.depth = 1, closing_brace = 0x29, brace_stack.next = Some 0\<rparr>"

definition example_brace_2 :: brace_stack where
  "example_brace_2 = \<lparr>brace_stack.depth = 2, closing_brace = 0x5D, brace_stack.next = Some 1\<rparr>"

definition example_heredoc_root :: heredoc_stack where
  "example_heredoc_root =
     \<lparr>heredoc_stack.depth = 0, sentinel = None, sentinel_length = 0, all_flags = 0,
      heredoc_stack.next = None\<rparr>"

definition example_heredoc_1 :: heredoc_stack where
  "example_heredoc_1 =
     \<lparr>heredoc_stack.depth = 1, sentinel = Some [0x45, 0x4E, 0x44], sentinel_length = 3,
      all_flags = 2, heredoc_stack.next = Some 0\<rparr>"

definition example_memory :: memory where
  "example_memory =
     \<lparr>braces = [Some example_brace_root, Some example_brace_1, Some example_brace_2],
      heredocs = [Some example_heredoc_root, Some example_heredoc_1],
      states = [Some \<lparr>current_brace = Some 2, current_heredoc = Some 1\<rparr>]\<rparr>"

definition example_braces :: "(addr \<times> brace_stack) list" where
  "example_braces = [(2, example_brace_2), (1, example_brace_1), (0, example_brace_root)]"

definition example_heredocs :: "(addr \<times> heredoc_stack) list" where
  "example_heredocs = [(1, example_heredoc_1), (0, example_heredoc_root)]"

text \<open>
  The state reached from a fresh one by \<open>n\<close> pushes of \<open>(\<close> under the table above:
  the cells of the brace heap, and the chain from the top frame.
\<close>

definition pushed_frame :: "nat \<Rightarrow> brace_stack" where
  "pushed_frame i =
     \<lparr>brace_stack.depth = of_nat i, closing_brace = 0x29, brace_stack.next = Some (i - 1)\<rparr>"

fun pushed_cells :: "nat \<Rightarrow> brace_stack option list" where
  "pushed_cells 0 = [Some example_brace_root]"
| "pushed_cells (Suc n) = pushed_cells n @ [Some (pushed_frame (Suc n))]"

fun pushed_chain :: "nat \<Rightarrow> (addr \<times> brace_stack) list" where
  "pushed_chain 0 = [(0, example_brace_root)]"
| "pushed_chain (Suc n) = (Suc n, pushed_frame (Suc n)) # pushed_chain n"

definition pushed_memory :: "nat \<Rightarrow> memory" where
  "pushed_memory n =
     \<lparr>braces = pushed_cells n,
      heredocs = [Some example_heredoc_root],
      states = [Some \<lparr>current_brace = Some n, current_heredoc = Some 0\<rparr>]\<rparr>"

section \<open>Cells\<close>

lemma deref_Some_less: "deref cells p = Some v \<Longrightarrow> p < length cells"
  by (simp add: deref_def split: if_splits)

lemma deref_append_old: "deref cells p = Some v \<Longrightarrow> deref (cells @ xs) p = Some v"
  by (simp add: deref_def nth_append split: if_splits)

lemma deref_append_new: "deref (cells @ [x]) (length cells) = x"
  by (simp add: deref_def)

lemma deref_update_same: "p < length cells \<Longrightarrow> deref (cells[p := x]) p = x"
  by (simp add: deref_def)

lemma deref_update_other: "q \<noteq> p \<Longrightarrow> deref (cells[p := x]) q = deref cells q"
  by (simp add: deref_def)

section \<open>Freeing\<close>

text \<open>
  Whenever \<^verbatim>\<open>heredoc_stack_free\<close> returns, it returned without a recursive call: on a null
  pointer, on a pointer that is not allocated, or by the failing assertion on a frame that
  is its own successor.
\<close>

lemma heredoc_stack_free_Some:
  assumes "heredoc_stack_free m head = Some y"
  shows "(case head of
        None \<Rightarrow> y = Inr m
      | Some p \<Rightarrow>
          (case deref (heredocs m) p of
             None \<Rightarrow> y = Inl InvalidPointer
           | Some f \<Rightarrow> heredoc_stack.next f = head \<and> y = Inl AssertionFailed))"
  using assms
proof (induct rule: heredoc_stack_free.raw_induct[rotated 1, consumes 1])
  case (1 rec m head y)
  show ?case
  proof (cases head)
    case None
    with 1(2) show ?thesis by simp
  next
    case (Some p)
    show ?thesis
    proof (cases "deref (heredocs m) p")
      case None
      with Some 1(2) show ?thesis by simp
    next
      case (Some f)
      show ?thesis
      proof (cases "heredoc_stack.next f = head")
        case True
        with Some \<open>head = Some p\<close> 1(2) show ?thesis by simp
      next
        case False
        with Some \<open>head = Some p\<close> 1(2) obtain r where "rec m head = Some r"
          by (auto simp: bind_eq_Some_conv)
        from 1(1)[OF this] Some \<open>head = Some p\<close> False show ?thesis by simp
      qed
    qed
  qed
qed

lemma heredoc_stack_free_diverges:
  assumes "deref (heredocs m) p = Some f" and "heredoc_stack.next f \<noteq> Some p"
  shows "heredoc_stack_free m (Some p) = None"
proof (cases "heredoc_stack_free m (Some p)")
  case None
  then show ?thesis .
next
  case (Some y)
  from heredoc_stack_free_Some[OF this] assms show ?thesis by simp
qed

lemma brace_stack_free_single:
  assumes "deref (braces m) p = Some f" and "brace_stack.next f = None"
  shows "brace_stack_free m (Some p) = Some (Inr (m\<lparr>braces := (braces m)[p := None]\<rparr>))"
  using assms
  by (subst brace_stack_free.simps) (simp add: brace_stack_free.simps[of _ None] free_brace_def)

section \<open>Pop\<close>

lemma brace_stack_pop_eq:
  assumes "deref (braces m) p = Some f"
  shows "brace_stack_pop m (Some p) =
     (if brace_stack.depth f = 0 \<or> brace_stack.next f = None then Some (Inl AssertionFailed)
      else Some (Inr (m\<lparr>braces := (braces m)[p := None]\<rparr>, brace_stack.next f)))"
proof -
  have lt: "p < length (braces m)" using assms by (rule deref_Some_less)
  let ?m1 = "m\<lparr>braces := (braces m)[p := Some (f\<lparr>brace_stack.next := None\<rparr>)]\<rparr>"
  have d: "deref (braces ?m1) p = Some (f\<lparr>brace_stack.next := None\<rparr>)"
    using lt by (simp add: deref_update_same)
  have "brace_stack_free ?m1 (Some p) = Some (Inr (?m1\<lparr>braces := (braces ?m1)[p := None]\<rparr>))"
    by (rule brace_stack_free_single[OF d]) simp
  then have fr: "brace_stack_free ?m1 (Some p) = Some (Inr (m\<lparr>braces := (braces m)[p := None]\<rparr>))"
    by simp
  show ?thesis
    using assms fr by (simp add: brace_stack_pop_def Let_def word_gt_0)
qed

lemma heredoc_stack_pop_root:
  assumes "deref (heredocs m) p = Some f" and "heredoc_stack.depth f = 0"
  shows "heredoc_stack_pop m (Some p) = Some (Inl AssertionFailed)"
  using assms by (simp add: heredoc_stack_pop_def)

text \<open>
  Above the root, \<^verbatim>\<open>heredoc_stack_pop\<close> clears \<^verbatim>\<open>next\<close> and hands the frame to
  \<^verbatim>\<open>heredoc_stack_free\<close>, which does not return.
\<close>

lemma heredoc_stack_pop_diverges:
  assumes "deref (heredocs m) p = Some f" and "heredoc_stack.depth f \<noteq> 0"
    and "heredoc_stack.next f \<noteq> None"
  shows "heredoc_stack_pop m (Some p) = None"
proof -
  have lt: "p < length (heredocs m)" using assms(1) by (rule deref_Some_less)
  let ?m1 = "m\<lparr>heredocs := (heredocs m)[p := Some (f\<lparr>heredoc_stack.next := None\<rparr>)]\<rparr>"
  have d: "deref (heredocs ?m1) p = Some (f\<lparr>heredoc_stack.next := None\<rparr>)"
    using lt by (simp add: deref_update_same)
  have "heredoc_stack_free ?m1 (Some p) = None"
    by (rule heredoc_stack_free_diverges[OF d]) simp
  then show ?thesis using assms by (simp add: heredoc_stack_pop_def Let_def word_gt_0)
qed

text \<open>
  Claim C2, as stated: pop on the root frame returns a recoverable StackUnderflow value and
  does not terminate the process. On the root frame of a freshly created state
  \<^verbatim>\<open>brace_stack_pop\<close> fails its assertion \<^verbatim>\<open>head->depth > 0\<close>: the process aborts and no
  value is returned.
\<close>

theorem brace_stack_pop_root_aborts:
  "brace_stack_pop (fst (tree_sitter_raku_external_scanner_create empty_memory)) (Some 0)
     = Some (Inl AssertionFailed)"
  by (simp add: brace_stack_pop_def tree_sitter_raku_external_scanner_create_def
      empty_memory_def deref_def)

text \<open>
  Claim C2, amended: on an allocated frame of depth 0, pop of either stack fails an
  assertion (the process aborts; the stack is not touched). \<^verbatim>\<open>brace_stack_pop\<close> on an
  allocated frame of depth greater than 0 whose \<^verbatim>\<open>next\<close> is not null returns that
  \<^verbatim>\<open>next\<close> pointer, and the memory it leaves differs from the one it was given in exactly
  one cell: the popped frame's, which is freed.
\<close>

theorem stack_pop_behaviour:
  "(deref (braces m) p = Some f \<longrightarrow>
      brace_stack_pop m (Some p) =
        (if brace_stack.depth f = 0 \<or> brace_stack.next f = None then Some (Inl AssertionFailed)
         else Some (Inr (m\<lparr>braces := (braces m)[p := None]\<rparr>, brace_stack.next f)))) \<and>
   (deref (heredocs m) q = Some g \<and> heredoc_stack.depth g = 0 \<longrightarrow>
      heredoc_stack_pop m (Some q) = Some (Inl AssertionFailed))"
  using brace_stack_pop_eq heredoc_stack_pop_root by blast

theorem stack_pop_behaviour_witness:
  "deref (braces \<lparr>braces = [Some \<lparr>brace_stack.depth = 0, closing_brace = 0, brace_stack.next = None\<rparr>,
                            Some \<lparr>brace_stack.depth = 1, closing_brace = 0x29, brace_stack.next = Some 0\<rparr>],
                  heredocs = [Some \<lparr>heredoc_stack.depth = 0, sentinel = None, sentinel_length = 0,
                                    all_flags = 0, heredoc_stack.next = None\<rparr>],
                  states = [Some \<lparr>current_brace = Some 1, current_heredoc = Some 0\<rparr>]\<rparr>) 1
     = Some \<lparr>brace_stack.depth = 1, closing_brace = 0x29, brace_stack.next = Some 0\<rparr> \<and>
   brace_stack_pop \<lparr>braces = [Some \<lparr>brace_stack.depth = 0, closing_brace = 0, brace_stack.next = None\<rparr>,
                              Some \<lparr>brace_stack.depth = 1, closing_brace = 0x29, brace_stack.next = Some 0\<rparr>],
                    heredocs = [Some \<lparr>heredoc_stack.depth = 0, sentinel = None, sentinel_length = 0,
                                      all_flags = 0, heredoc_stack.next = None\<rparr>],
                    states = [Some \<lparr>current_brace = Some 1, current_heredoc = Some 0\<rparr>]\<rparr> (Some 1)
     = Some (Inr (\<lparr>braces = [Some \<lparr>brace_stack.depth = 0, closing_brace = 0, brace_stack.next = None\<rparr>,
                              None],
                   heredocs = [Some \<lparr>heredoc_stack.depth = 0, sentinel = None, sentinel_length = 0,
                                     all_flags = 0, heredoc_stack.next = None\<rparr>],
                   states = [Some \<lparr>current_brace = Some 1, current_heredoc = Some 0\<rparr>]\<rparr>,
                  Some 0)) \<and>
   heredoc_stack_pop \<lparr>braces = [Some \<lparr>brace_stack.depth = 0, closing_brace = 0, brace_stack.next = None\<rparr>,
                              Some \<lparr>brace_stack.depth = 1, closing_brace = 0x29, brace_stack.next = Some 0\<rparr>],
                    heredocs = [Some \<lparr>heredoc_stack.depth = 0, sentinel = None, sentinel_length = 0,
                                      all_flags = 0, heredoc_stack.next = None\<rparr>],
                    states = [Some \<lparr>current_brace = Some 1, current_heredoc = Some 0\<rparr>]\<rparr> (Some 0)
     = Some (Inl AssertionFailed)"
  using stack_pop_behaviour
    [of "\<lparr>braces = [Some \<lparr>brace_stack.depth = 0, closing_brace = 0, brace_stack.next = None\<rparr>,
                    Some \<lparr>brace_stack.depth = 1, closing_brace = 0x29, brace_stack.next = Some 0\<rparr>],
          heredocs = [Some \<lparr>heredoc_stack.depth = 0, sentinel = None, sentinel_length = 0,
                            all_flags = 0, heredoc_stack.next = None\<rparr>],
          states = [Some \<lparr>current_brace = Some 1, current_heredoc = Some 0\<rparr>]\<rparr>"
        1 "\<lparr>brace_stack.depth = 1, closing_brace = 0x29, brace_stack.next = Some 0\<rparr>"
        0 "\<lparr>heredoc_stack.depth = 0, sentinel = None, sentinel_length = 0,
            all_flags = 0, heredoc_stack.next = None\<rparr>"]
  by (simp add: deref_def)

section \<open>Push\<close>

lemma brace_stack_push_eq:
  assumes "deref (braces m) p = Some f"
  shows "brace_stack_push tbl m (Some p) c =
     Inr (m\<lparr>braces := braces m @
             [Some \<lparr>brace_stack.depth = brace_stack.depth f + 1,
                    closing_brace = (if in_pair_table tbl c then BRACE_TABLE tbl c else c),
                    brace_stack.next = Some p\<rparr>]\<rparr>,
          Some (length (braces m)))"
  using assms by (simp add: brace_stack_push_def Let_def in_pair_table_def)

text \<open>
  Claim C4 (the code does not do this): \<^verbatim>\<open>heredoc_stack_push\<close> on a non-null stack, for any
  sentinel, returns no stack: control reaches the end of the function without a
  \<^verbatim>\<open>return\<close>, and no frame has been allocated.
\<close>

theorem heredoc_stack_push_missing_return:
  "heredoc_stack_push m (Some p) s = Inl MissingReturn"
  by (simp add: heredoc_stack_push_def)

text \<open>
  Claim C5: on a non-null stack whose top frame \<open>f\<close> is allocated, \<^verbatim>\<open>brace_stack_push\<close>
  returns a new top frame. Its closing delimiter is the table's entry for the opening
  character when that character is in the pair table, and the opening character itself
  otherwise; its depth is the depth of \<open>f\<close> plus one (in \<^verbatim>\<open>size_t\<close>, and as a number
  whenever that number fits); its \<^verbatim>\<open>next\<close> is the old top; and every cell that was
  allocated before still holds what it held.
\<close>

theorem brace_stack_push_correct:
  assumes "deref (braces m) p = Some f"
  shows "\<exists>m' q g. brace_stack_push tbl m (Some p) c = Inr (m', Some q) \<and>
           deref (braces m') q = Some g \<and>
           closing_brace g = (if in_pair_table tbl c then BRACE_TABLE tbl c else c) \<and>
           brace_stack.depth g = brace_stack.depth f + 1 \<and>
           (unat (brace_stack.depth f) + 1 < 2 ^ 64 \<longrightarrow>
              unat (brace_stack.depth g) = unat (brace_stack.depth f) + 1) \<and>
           brace_stack.next g = Some p \<and>
           (\<forall>a v. deref (braces m) a = Some v \<longrightarrow> deref (braces m') a = Some v) \<and>
           heredocs m' = heredocs m \<and> states m' = states m"
proof -
  have "unat (brace_stack.depth f + 1) = unat (brace_stack.depth f) + 1"
    if "unat (brace_stack.depth f) + 1 < 2 ^ 64"
    using that by (simp add: unat_word_ariths)
  then show ?thesis
    unfolding brace_stack_push_eq[OF assms]
    by (simp add: deref_append_new deref_append_old)
qed

theorem brace_stack_push_correct_witness:
  "deref (braces (fst (tree_sitter_raku_external_scanner_create empty_memory))) 0
     = Some \<lparr>brace_stack.depth = 0, closing_brace = 0, brace_stack.next = None\<rparr> \<and>
   (\<exists>m' q g. brace_stack_push ascii_table
                (fst (tree_sitter_raku_external_scanner_create empty_memory)) (Some 0) 0x28
                = Inr (m', Some q) \<and>
      deref (braces m') q = Some g \<and> closing_brace g = 0x29 \<and> brace_stack.depth g = 1 \<and>
      brace_stack.next g = Some 0)"
proof -
  have h: "deref (braces (fst (tree_sitter_raku_external_scanner_create empty_memory))) 0
     = Some \<lparr>brace_stack.depth = 0, closing_brace = 0, brace_stack.next = None\<rparr>"
    by (simp add: tree_sitter_raku_external_scanner_create_def empty_memory_def deref_def)
  have t: "in_pair_table ascii_table 0x28" "BRACE_TABLE ascii_table 0x28 = 0x29"
    by (simp_all add: in_pair_table_def ascii_table_def)
  from brace_stack_push_correct[OF h, of ascii_table "0x28"] h t show ?thesis
    by auto
qed

section \<open>Destroy\<close>

text \<open>
  Claim C9 (the code does not do this): Destroy terminates and releases the state and every
  frame. On the state that Create returns, in any memory, \<^verbatim>\<open>brace_stack_free\<close> releases
  the brace root and then \<^verbatim>\<open>heredoc_stack_free\<close> is called on the heredoc root, where it
  calls itself on the same frame without end: Destroy never returns.
\<close>

theorem destroy_never_returns:
  "tree_sitter_raku_external_scanner_destroy
     (fst (tree_sitter_raku_external_scanner_create m0))
     (Some (snd (tree_sitter_raku_external_scanner_create m0))) = None"
proof -
  let ?m = "fst (tree_sitter_raku_external_scanner_create m0)"
  let ?sp = "snd (tree_sitter_raku_external_scanner_create m0)"
  let ?s = "\<lparr>current_brace = Some (length (braces m0)), current_heredoc = Some (length (heredocs m0))\<rparr>"
  let ?bf = "\<lparr>brace_stack.depth = 0, closing_brace = 0, brace_stack.next = None\<rparr>"
  let ?hf = "\<lparr>heredoc_stack.depth = 0, sentinel = None, sentinel_length = 0,
              all_flags = 0, heredoc_stack.next = None\<rparr>"
  have s: "deref (states ?m) ?sp = Some ?s"
    by (simp add: tree_sitter_raku_external_scanner_create_def Let_def deref_append_new)
  have b: "deref (braces ?m) (length (braces m0)) = Some ?bf"
    by (simp add: tree_sitter_raku_external_scanner_create_def Let_def deref_append_new)
  have bfree: "brace_stack_free ?m (Some (length (braces m0)))
                 = Some (Inr (?m\<lparr>braces := (braces ?m)[length (braces m0) := None]\<rparr>))"
    by (rule brace_stack_free_single[OF b]) simp
  let ?m1 = "?m\<lparr>braces := (braces ?m)[length (braces m0) := None]\<rparr>"
  have h: "deref (heredocs ?m1) (length (heredocs m0)) = Some ?hf"
    by (simp add: tree_sitter_raku_external_scanner_create_def Let_def deref_append_new)
  have hfree: "heredoc_stack_free ?m1 (Some (length (heredocs m0))) = None"
    by (rule heredoc_stack_free_diverges[OF h]) simp
  show ?thesis
    unfolding tree_sitter_raku_external_scanner_destroy_def
    using s bfree hfree by simp
qed

section \<open>Chains and the serializer\<close>

lemma length_le_bytes [simp]: "length (le_bytes n v) = n"
  by (induction n arbitrary: v) auto

lemma length_le32 [simp]: "length (le32 w) = 4"
  by (simp add: le32_def)

lemma length_le64 [simp]: "length (le64 w) = 8"
  by (simp add: le64_def)

lemma brace_chain_braces_eq:
  "braces m' = braces m \<Longrightarrow> brace_chain m' head fs = brace_chain m head fs"
  by (induction fs arbitrary: head) auto

lemma heredoc_chain_heredocs_eq:
  "heredocs m' = heredocs m \<Longrightarrow> heredoc_chain m' head fs = heredoc_chain m head fs"
  by (induction fs arbitrary: head) auto

lemma brace_chain_append:
  "brace_chain m head fs \<Longrightarrow> brace_chain (m\<lparr>braces := braces m @ xs\<rparr>) head fs"
  by (induction fs arbitrary: head) (auto simp: deref_append_old)

lemma heredoc_chain_append:
  "heredoc_chain m head fs \<Longrightarrow> heredoc_chain (m\<lparr>heredocs := heredocs m @ xs\<rparr>) head fs"
  by (induction fs arbitrary: head) (auto simp: deref_append_old)

lemma serialize_brace_loop_chain:
  "brace_chain m head fs \<Longrightarrow> fs \<noteq> [] \<Longrightarrow>
   serialize_brace_loop m head out =
     Some (out @ concat (map (\<lambda>(p, f). le32 (closing_brace f)) (butlast fs)), None)"
proof (induction fs arbitrary: head out)
  case Nil
  then show ?case by simp
next
  case (Cons pf rest)
  obtain p f where pf: "pf = (p, f)" by (cases pf)
  from Cons.prems pf have head: "head = Some p" and d: "deref (braces m) p = Some f"
    and dep: "unat (brace_stack.depth f) = length rest"
    and ch: "brace_chain m (brace_stack.next f) rest" by simp_all
  show ?case
  proof (cases "rest = []")
    case True
    with dep have "brace_stack.depth f = 0" by (simp add: unat_eq_0)
    with head d True pf show ?thesis
      by (subst serialize_brace_loop.simps) simp
  next
    case False
    with dep have pos: "0 < brace_stack.depth f" by (simp add: word_gt_0 unat_eq_0[symmetric])
    from False ch have nn: "brace_stack.next f \<noteq> None" by (cases rest) auto
    from Cons.IH[OF ch False]
    have "serialize_brace_loop m (brace_stack.next f) (out @ le32 (closing_brace f)) =
      Some ((out @ le32 (closing_brace f)) @ concat (map (\<lambda>(p, f). le32 (closing_brace f)) (butlast rest)), None)" .
    with head d pos nn False pf show ?thesis
      by (subst serialize_brace_loop.simps) simp
  qed
qed

lemma sentinel_ok_bytes:
  assumes "sentinel_ok f"
  obtains cs where "sentinel f = Some cs" and "unat (sentinel_length f * 4) = 4 * length cs"
proof -
  from assms obtain cs where s: "sentinel f = Some cs" and l: "length cs = unat (sentinel_length f)"
    and b: "4 * length cs < 2 ^ 64"
    by (auto simp: sentinel_ok_def split: option.splits)
  have "unat (sentinel_length f * 4) = unat (sentinel_length f) * 4"
    using l b by (simp add: unat_word_ariths)
  with l s that show ?thesis by simp
qed

lemma serialize_heredoc_loop_chain:
  "heredoc_chain m head fs \<Longrightarrow> fs \<noteq> [] \<Longrightarrow>
   serialize_heredoc_loop m head out =
     Some (out @ concat (map (\<lambda>(p, f). encode_heredoc f) (butlast fs)), None)"
proof (induction fs arbitrary: head out)
  case Nil
  then show ?case by simp
next
  case (Cons pf rest)
  obtain p f where pf: "pf = (p, f)" by (cases pf)
  from Cons.prems pf have head: "head = Some p" and d: "deref (heredocs m) p = Some f"
    and dep: "unat (heredoc_stack.depth f) = length rest"
    and ok: "rest = [] \<or> sentinel_ok f"
    and ch: "heredoc_chain m (heredoc_stack.next f) rest" by simp_all
  show ?case
  proof (cases "rest = []")
    case True
    with dep have "heredoc_stack.depth f = 0" by (simp add: unat_eq_0)
    with head d True pf show ?thesis
      by (subst serialize_heredoc_loop.simps) simp
  next
    case False
    with dep have pos: "0 < heredoc_stack.depth f" by (simp add: word_gt_0 unat_eq_0[symmetric])
    from False ch have nn: "heredoc_stack.next f \<noteq> None" by (cases rest) auto
    from False ok have "sentinel_ok f" by simp
    then obtain cs where s: "sentinel f = Some cs" and nb: "unat (sentinel_length f * 4) = 4 * length cs"
      by (rule sentinel_ok_bytes)
    have len: "length (concat (map le32 cs)) = 4 * length cs"
      by (induction cs) auto
    from Cons.IH[OF ch False]
    have "serialize_heredoc_loop m (heredoc_stack.next f) (out @ encode_heredoc f) =
      Some ((out @ encode_heredoc f) @ concat (map (\<lambda>(p, f). encode_heredoc f) (butlast rest)), None)" .
    moreover have enc: "le32 (all_flags f) @ le64 (sentinel_length f) @
        take (unat (sentinel_length f * 4)) (concat (map le32 cs)) = encode_heredoc f"
      using s nb len by (simp add: encode_heredoc_def)
    moreover have "unat (sentinel_length f * 4) \<le> 4 * length cs" using nb by simp
    ultimately show ?thesis
      using head d pos nn False pf s
      by (subst serialize_heredoc_loop.simps) (simp add: Let_def)
  qed
qed

lemma serialize_layout:
  assumes "stacks_at m sp bs hs"
  shows "tree_sitter_raku_external_scanner_serialize buffer_size m (Some sp) =
     Some (if buffer_size < length (brace_section bs)
           then (brace_section bs, Inl AssertionFailed)
           else if buffer_size < length (brace_section bs @ heredoc_section hs)
           then (brace_section bs @ heredoc_section hs, Inl AssertionFailed)
           else (brace_section bs @ heredoc_section hs,
                 Inr (of_nat (length (brace_section bs @ heredoc_section hs)))))"
proof -
  from assms obtain s where s: "deref (states m) sp = Some s"
    and bne: "bs \<noteq> []" and bch: "brace_chain m (current_brace s) bs"
    and hne: "hs \<noteq> []" and hch: "heredoc_chain m (current_heredoc s) hs"
    by (auto simp: stacks_at_def split: option.splits)
  from bne obtain bp bf brest where bs: "bs = (bp, bf) # brest" by (cases bs) auto
  from hne obtain hp hf hrest where hs: "hs = (hp, hf) # hrest" by (cases hs) auto
  from bch bs have cb: "current_brace s = Some bp" and db: "deref (braces m) bp = Some bf" by simp_all
  from hch hs have chd: "current_heredoc s = Some hp" and dh: "deref (heredocs m) hp = Some hf" by simp_all
  have l1: "serialize_brace_loop m (Some bp) (le64 (brace_stack.depth bf)) = Some (brace_section bs, None)"
    using serialize_brace_loop_chain[OF bch bne, of "le64 (brace_stack.depth bf)"] cb bs
    by (simp add: brace_section_def)
  have l2: "serialize_heredoc_loop m (Some hp) (brace_section bs @ le64 (heredoc_stack.depth hf))
      = Some (brace_section bs @ heredoc_section hs, None)"
    using serialize_heredoc_loop_chain[OF hch hne, of "brace_section bs @ le64 (heredoc_stack.depth hf)"] chd hs
    by (simp add: heredoc_section_def)
  show ?thesis
    unfolding tree_sitter_raku_external_scanner_serialize_def
    using s cb chd db dh l1 l2 by (simp add: not_le)
qed

section \<open>Sizes and concrete states\<close>

lemma length_concat_le32:
  "length (concat (map (\<lambda>(p, f). le32 (g f)) xs)) = 4 * length xs"
  by (induction xs) auto

lemma length_brace_section: "length (brace_section bs) = 8 + 4 * (length bs - 1)"
  by (simp add: brace_section_def length_concat_le32)

lemma length_pushed_cells: "length (pushed_cells n) = Suc n"
  by (induction n) auto

lemma length_pushed_chain: "length (pushed_chain n) = Suc n"
  by (induction n) auto

lemma pushed_frame_depth: "n < 2 ^ 64 \<Longrightarrow> unat (brace_stack.depth (pushed_frame n)) = n"
  unfolding pushed_frame_def by (simp add: unat_of_nat)

lemma pushed_frame_next: "brace_stack.next (pushed_frame (Suc n)) = Some n"
  unfolding pushed_frame_def by simp

lemma pushed_chain_ok:
  "n < 2 ^ 64 \<Longrightarrow> braces m = pushed_cells n \<Longrightarrow> brace_chain m (Some n) (pushed_chain n)"
proof (induction n arbitrary: m)
  case 0
  then show ?case by (simp add: deref_def example_brace_root_def)
next
  case (Suc n)
  let ?m0 = "m\<lparr>braces := pushed_cells n\<rparr>"
  from Suc.prems have n: "n < 2 ^ 64" by linarith
  have "brace_chain ?m0 (Some n) (pushed_chain n)"
    by (rule Suc.IH[OF n]) simp
  then have "brace_chain (?m0\<lparr>braces := braces ?m0 @ [Some (pushed_frame (Suc n))]\<rparr>) (Some n) (pushed_chain n)"
    by (rule brace_chain_append)
  moreover have "brace_chain m (Some n) (pushed_chain n) =
      brace_chain (?m0\<lparr>braces := braces ?m0 @ [Some (pushed_frame (Suc n))]\<rparr>) (Some n) (pushed_chain n)"
    by (rule brace_chain_braces_eq) (simp add: Suc.prems(2))
  ultimately have ch: "brace_chain m (Some n) (pushed_chain n)"
    by blast
  have "deref (pushed_cells n @ [Some (pushed_frame (Suc n))]) (length (pushed_cells n)) = Some (pushed_frame (Suc n))"
    by (rule deref_append_new)
  then have d: "deref (braces m) (Suc n) = Some (pushed_frame (Suc n))"
    using Suc.prems(2) by (simp only: length_pushed_cells pushed_cells.simps)
  have u: "unat (brace_stack.depth (pushed_frame (Suc n))) = length (pushed_chain n)"
    using pushed_frame_depth[OF Suc.prems(1)] by (simp only: length_pushed_chain)
  show ?case
    unfolding pushed_chain.simps brace_chain.simps pushed_frame_next
    using ch d u by simp
qed

lemma pushed_memory_stacks:
  "n < 2 ^ 64 \<Longrightarrow> stacks_at (pushed_memory n) 0 (pushed_chain n) [(0, example_heredoc_root)]"
proof -
  assume n: "n < 2 ^ 64"
  have "brace_chain (pushed_memory n) (Some n) (pushed_chain n)"
    by (rule pushed_chain_ok[OF n]) (simp add: pushed_memory_def)
  moreover have "pushed_chain n \<noteq> []" by (cases n) auto
  ultimately show ?thesis
    by (simp add: stacks_at_def pushed_memory_def deref_def example_heredoc_root_def)
qed


text \<open>
  Claim C10: for a state whose stacks are the chains \<open>bs\<close> and \<open>hs\<close> (top frame first,
  root last), the bytes the serializer stores are the depth of the top brace frame, then
  the closing delimiters of the brace frames from the top towards the root without the
  root, then (unless the assertion after the brace section has already failed) the depth of
  the top heredoc frame and, in the same order and again without the root, each heredoc
  frame's flags word, sentinel length and sentinel code points.
\<close>

theorem serialize_top_first:
  assumes "stacks_at m sp bs hs"
  shows "\<exists>r. tree_sitter_raku_external_scanner_serialize buffer_size m (Some sp) =
           Some (brace_section bs @
                 (if buffer_size < length (brace_section bs) then [] else heredoc_section hs), r)"
  unfolding serialize_layout[OF assms] by simp

lemma example_stacks: "stacks_at example_memory 0 example_braces example_heredocs"
  by (simp add: stacks_at_def example_memory_def example_braces_def example_heredocs_def deref_def
      example_brace_root_def example_brace_1_def example_brace_2_def example_heredoc_root_def
      example_heredoc_1_def sentinel_ok_def)

lemma le_bytes_4:
  "le_bytes 4 v = [of_nat (v mod 256), of_nat (v div 256 mod 256),
                   of_nat (v div 256 div 256 mod 256), of_nat (v div 256 div 256 div 256 mod 256)]"
proof -
  have "(4::nat) = Suc (Suc (Suc (Suc 0)))" by simp
  then show ?thesis by (simp only: le_bytes.simps)
qed

lemma le_bytes_8:
  "le_bytes 8 v = le_bytes 4 v @ le_bytes 4 (v div 256 div 256 div 256 div 256)"
proof -
  have "(8::nat) = Suc (Suc (Suc (Suc (Suc (Suc (Suc (Suc 0)))))))" by simp
  then show ?thesis by (simp only: le_bytes.simps le_bytes_4 append.simps)
qed

lemmas le_eval = le32_def le64_def le_bytes_8 le_bytes_4

lemma example_bytes:
  "brace_section example_braces @ heredoc_section example_heredocs =
     [2, 0, 0, 0, 0, 0, 0, 0,  0x5D, 0, 0, 0,  0x29, 0, 0, 0,
      1, 0, 0, 0, 0, 0, 0, 0,  2, 0, 0, 0,  3, 0, 0, 0, 0, 0, 0, 0,
      0x45, 0, 0, 0,  0x4E, 0, 0, 0,  0x44, 0, 0, 0]"
  by (simp add: brace_section_def heredoc_section_def example_braces_def example_heredocs_def
      example_brace_root_def example_brace_1_def example_brace_2_def example_heredoc_root_def
      example_heredoc_1_def encode_heredoc_def le_eval)


theorem serialize_top_first_witness:
  "stacks_at example_memory 0 example_braces example_heredocs \<and>
   (\<exists>r. tree_sitter_raku_external_scanner_serialize 1024 example_memory (Some 0) =
      Some ([2, 0, 0, 0, 0, 0, 0, 0,  0x5D, 0, 0, 0,  0x29, 0, 0, 0,
             1, 0, 0, 0, 0, 0, 0, 0,  2, 0, 0, 0,  3, 0, 0, 0, 0, 0, 0, 0,
             0x45, 0, 0, 0,  0x4E, 0, 0, 0,  0x44, 0, 0, 0], r))"
proof -
  have fits: "\<not> (1024::nat) < length (brace_section example_braces)"
    by (simp add: length_brace_section example_braces_def)
  from serialize_top_first[OF example_stacks, of 1024] fits example_bytes example_stacks
  show ?thesis by simp
qed

text \<open>
  Claim C3, as stated: an encoding larger than the buffer is refused before anything is
  written past the buffer. With a capacity of 1024 bytes and the state reached by 255
  pushes, the serializer stores 1028 bytes, four of them past the end of the buffer, and
  only then fails the assertion on \<^verbatim>\<open>head - buffer\<close>.
\<close>

theorem serialize_overflow_counterexample:
  "tree_sitter_raku_external_scanner_serialize 1024 (pushed_memory 255) (Some 0) =
     Some (brace_section (pushed_chain 255), Inl AssertionFailed) \<and>
   length (brace_section (pushed_chain 255)) = 1028"
proof -
  have st: "stacks_at (pushed_memory 255) 0 (pushed_chain 255) [(0, example_heredoc_root)]"
    by (rule pushed_memory_stacks) simp
  have len: "length (brace_section (pushed_chain 255)) = 1028"
    by (simp add: length_brace_section length_pushed_chain)
  show ?thesis
    unfolding serialize_layout[OF st] using len by simp
qed

text \<open>
  Claim C3, amended: for a well-formed state whose encoding fits the buffer, the serializer
  writes all of it and returns the number of bytes written (as a number whenever the
  capacity fits \<^verbatim>\<open>uint32_t\<close>). For one whose encoding does not fit, the call returns no
  count: it ends in a failed assertion.
\<close>

theorem serialize_checks_after_writing:
  assumes "stacks_at m sp bs hs"
  shows "(length (brace_section bs @ heredoc_section hs) \<le> buffer_size \<longrightarrow>
            (\<exists>n. tree_sitter_raku_external_scanner_serialize buffer_size m (Some sp) =
                    Some (brace_section bs @ heredoc_section hs, Inr n) \<and>
                 (buffer_size < 2 ^ 32 \<longrightarrow>
                    unat n = length (brace_section bs @ heredoc_section hs)))) \<and>
         (buffer_size < length (brace_section bs @ heredoc_section hs) \<longrightarrow>
            (\<exists>out. tree_sitter_raku_external_scanner_serialize buffer_size m (Some sp) =
                      Some (out, Inl AssertionFailed)))"
proof (intro conjI impI)
  assume fits: "length (brace_section bs @ heredoc_section hs) \<le> buffer_size"
  let ?n = "of_nat (length (brace_section bs @ heredoc_section hs)) :: uint32_t"
  have eq: "tree_sitter_raku_external_scanner_serialize buffer_size m (Some sp) =
          Some (brace_section bs @ heredoc_section hs, Inr ?n)"
    unfolding serialize_layout[OF assms] using fits by simp
  have "unat ?n = length (brace_section bs @ heredoc_section hs)" if "buffer_size < 2 ^ 32"
  proof -
    from that fits have "length (brace_section bs @ heredoc_section hs) < 2 ^ 32" by simp
    then show ?thesis by (simp only: unat_of_nat len_of_numeral_defs) simp
  qed
  with eq show "\<exists>n. tree_sitter_raku_external_scanner_serialize buffer_size m (Some sp) =
                    Some (brace_section bs @ heredoc_section hs, Inr n) \<and>
                 (buffer_size < 2 ^ 32 \<longrightarrow>
                    unat n = length (brace_section bs @ heredoc_section hs))"
    by blast
next
  assume over: "buffer_size < length (brace_section bs @ heredoc_section hs)"
  show "\<exists>out. tree_sitter_raku_external_scanner_serialize buffer_size m (Some sp) =
                      Some (out, Inl AssertionFailed)"
    unfolding serialize_layout[OF assms] using over by simp
qed

theorem serialize_checks_after_writing_witness:
  "stacks_at example_memory 0 example_braces example_heredocs \<and>
   length (brace_section example_braces @ heredoc_section example_heredocs) \<le> 1024 \<and>
   (1024::nat) < 2 ^ 32 \<and>
   (\<exists>n. tree_sitter_raku_external_scanner_serialize 1024 example_memory (Some 0) =
           Some (brace_section example_braces @ heredoc_section example_heredocs, Inr n) \<and>
         unat n = 48) \<and>
   stacks_at (pushed_memory 255) 0 (pushed_chain 255) [(0, example_heredoc_root)] \<and>
   1024 < length (brace_section (pushed_chain 255) @ heredoc_section [(0, example_heredoc_root)]) \<and>
   (\<exists>out. tree_sitter_raku_external_scanner_serialize 1024 (pushed_memory 255) (Some 0) =
           Some (out, Inl AssertionFailed))"
proof -
  have st: "stacks_at (pushed_memory 255) 0 (pushed_chain 255) [(0, example_heredoc_root)]"
    by (rule pushed_memory_stacks) simp
  have len: "length (brace_section example_braces @ heredoc_section example_heredocs) = 48"
    unfolding example_bytes by simp
  have over: "1024 < length (brace_section (pushed_chain 255) @ heredoc_section [(0, example_heredoc_root)])"
    by (simp add: length_brace_section length_pushed_chain)
  from serialize_checks_after_writing[OF example_stacks, of 1024]
       serialize_checks_after_writing[OF st, of 1024] example_stacks st len over
  show ?thesis by simp
qed

section \<open>Sequences of operations\<close>

lemma brace_chain_member:
  "brace_chain m head fs \<Longrightarrow> (q, g) \<in> set fs \<Longrightarrow>
   deref (braces m) q = Some g \<and> unat (brace_stack.depth g) < length fs"
proof (induction fs arbitrary: head)
  case Nil
  then show ?case by simp
next
  case (Cons pf rest)
  obtain p f where pf: "pf = (p, f)" by (cases pf)
  show ?case
  proof (cases "(q, g) = (p, f)")
    case True
    with Cons.prems pf show ?thesis by simp
  next
    case False
    with Cons.prems pf have "(q, g) \<in> set rest" and "brace_chain m (brace_stack.next f) rest"
      by auto
    from Cons.IH[OF this(2) this(1)] show ?thesis by simp
  qed
qed

lemma brace_chain_top_fresh:
  assumes "brace_chain m head ((p, f) # rest)"
  shows "p \<notin> fst ` set rest"
proof
  assume "p \<in> fst ` set rest"
  then obtain g where g: "(p, g) \<in> set rest" by auto
  from assms have ch: "brace_chain m (brace_stack.next f) rest"
    and d: "deref (braces m) p = Some f" and u: "unat (brace_stack.depth f) = length rest"
    by simp_all
  from brace_chain_member[OF ch g] d u show False by simp
qed

lemma brace_chain_update_other:
  "brace_chain m head fs \<Longrightarrow> p \<notin> fst ` set fs \<Longrightarrow>
   brace_chain (m\<lparr>braces := (braces m)[p := x]\<rparr>) head fs"
  by (induction fs arbitrary: head) (auto simp: deref_update_other)

text \<open>
  A run of brace operations from a well-formed stack: it ends in a failed assertion exactly
  when some pop meets the root, and otherwise returns a well-formed stack over the same
  root whose depth is the starting depth plus the pushes minus the pops. The bound keeps
  the depths within \<^verbatim>\<open>size_t\<close>.
\<close>

lemma run_brace_ops_chain:
  assumes "brace_chain m head fs" and "fs \<noteq> []" and "length fs + length ops \<le> 2 ^ 64"
  shows "case net_depth ops (length fs - 1) of
           None \<Rightarrow> run_brace_ops tbl m head ops = Some (Inl AssertionFailed)
         | Some d \<Rightarrow>
             (\<exists>m' head' fs'. run_brace_ops tbl m head ops = Some (Inr (m', head')) \<and>
                brace_chain m' head' fs' \<and> length fs' = Suc d \<and> last fs' = last fs \<and>
                heredocs m' = heredocs m \<and> states m' = states m)"
  using assms
proof (induction ops arbitrary: m head fs)
  case Nil
  then show ?case by (cases fs) auto
next
  case (Cons op ops)
  from Cons.prems(2) obtain p f rest where fs: "fs = (p, f) # rest" by (cases fs) auto
  with Cons.prems(1) have head: "head = Some p" and d: "deref (braces m) p = Some f"
    and u: "unat (brace_stack.depth f) = length rest"
    and ch: "brace_chain m (brace_stack.next f) rest" by simp_all
  show ?case
  proof (cases op)
    case (Push c)
    let ?g = "\<lparr>brace_stack.depth = brace_stack.depth f + 1,
               closing_brace = (if in_pair_table tbl c then BRACE_TABLE tbl c else c),
               brace_stack.next = Some p\<rparr>"
    let ?q = "length (braces m)"
    let ?m' = "m\<lparr>braces := braces m @ [Some ?g]\<rparr>"
    have push: "brace_stack_push tbl m head c = Inr (?m', Some ?q)"
      unfolding head by (rule brace_stack_push_eq[OF d])
    from Cons.prems(3) fs have bound: "length rest + 1 < 2 ^ 64" by simp
    have ug: "unat (brace_stack.depth ?g) = length fs"
      using u bound fs by (simp add: unat_word_ariths)
    have old: "brace_chain ?m' head fs"
      by (rule brace_chain_append[OF Cons.prems(1)])
    have new: "brace_chain ?m' (Some ?q) ((?q, ?g) # fs)"
      using old ug head by (simp add: deref_append_new)
    have len: "length ((?q, ?g) # fs) + length ops \<le> 2 ^ 64"
      using Cons.prems(3) by simp
    have nd: "net_depth (op # ops) (length fs - 1) = net_depth ops (length ((?q, ?g) # fs) - 1)"
      using Push fs by simp
    have run: "run_brace_ops tbl m head (op # ops) = run_brace_ops tbl ?m' (Some ?q) ops"
      using Push push by simp
    from Cons.IH[OF new _ len] show ?thesis
      unfolding nd run using fs by (auto split: option.splits)
  next
    case Pop
    show ?thesis
    proof (cases "rest = []")
      case True
      with u have "brace_stack.depth f = 0" by (simp add: unat_eq_0)
      then have "brace_stack_pop m head = Some (Inl AssertionFailed)"
        unfolding head brace_stack_pop_eq[OF d] by simp
      with Pop True fs show ?thesis by simp
    next
      case False
      with u have nz: "brace_stack.depth f \<noteq> 0" by (auto simp: unat_eq_0[symmetric])
      from False ch have nn: "brace_stack.next f \<noteq> None" by (cases rest) auto
      let ?m' = "m\<lparr>braces := (braces m)[p := None]\<rparr>"
      have pop: "brace_stack_pop m head = Some (Inr (?m', brace_stack.next f))"
        unfolding head brace_stack_pop_eq[OF d] using nz nn by simp
      have fresh: "p \<notin> fst ` set rest"
        using Cons.prems(1) unfolding fs by (rule brace_chain_top_fresh)
      have ch': "brace_chain ?m' (brace_stack.next f) rest"
        by (rule brace_chain_update_other[OF ch fresh])
      have len: "length rest + length ops \<le> 2 ^ 64"
        using Cons.prems(3) fs by simp
      from False obtain k where k: "length rest = Suc k" by (cases rest) auto
      have nd: "net_depth (op # ops) (length fs - 1) = net_depth ops (length rest - 1)"
        using Pop fs k by simp
      have run: "run_brace_ops tbl m head (op # ops) = run_brace_ops tbl ?m' (brace_stack.next f) ops"
        using Pop pop by simp
      from Cons.IH[OF ch' False len] show ?thesis
        unfolding nd run using fs False by (auto split: option.splits)
    qed
  qed
qed

lemma create_stacks:
  "stacks_at (fst (tree_sitter_raku_external_scanner_create m0))
     (snd (tree_sitter_raku_external_scanner_create m0))
     [(length (braces m0), example_brace_root)] [(length (heredocs m0), example_heredoc_root)]"
  by (simp add: stacks_at_def tree_sitter_raku_external_scanner_create_def Let_def
      deref_append_new example_brace_root_def example_heredoc_root_def)

lemma run_heredoc_ops_root:
  assumes "deref (heredocs m) p = Some f" and "heredoc_stack.depth f = 0"
  shows "run_heredoc_ops m (Some p) (op # ops) =
     Some (Inl (case op of HPush s \<Rightarrow> MissingReturn | HPop \<Rightarrow> AssertionFailed))"
  using assms by (cases op) (simp_all add: heredoc_stack_push_def heredoc_stack_pop_root)

text \<open>
  Claim C6 (the code does not do this on the heredoc stack): after a sequence of pushes and
  pops the depth is the number of pushes minus the number of pops. From a freshly created
  state, the sequence of one heredoc push yields no stack at all, where the claim has a
  stack of depth 1.
\<close>

theorem heredoc_push_leaves_no_stack:
  "run_heredoc_ops (fst (tree_sitter_raku_external_scanner_create empty_memory)) (Some 0)
     [HPush (Some [0x45, 0x4E, 0x44])] = Some (Inl MissingReturn)"
  by (simp add: heredoc_stack_push_def)

section \<open>The wire format\<close>

lemma le_val_le_bytes: "le_val (le_bytes n v) = v mod 256 ^ n"
proof (induction n arbitrary: v)
  case 0
  then show ?case by simp
next
  case (Suc n)
  have "unat (of_nat (v mod 256) :: byte) = v mod 256"
    by (simp add: unat_of_nat)
  then have "le_val (le_bytes (Suc n) v) = v mod 256 + 256 * ((v div 256) mod 256 ^ n)"
    using Suc.IH[of "v div 256"] by simp
  also have "\<dots> = v mod 256 ^ Suc n"
    by (simp add: mod_mult2_eq)
  finally show ?case .
qed

lemma le_val_bound: "le_val bs < 256 ^ length bs"
proof (induction bs)
  case Nil
  then show ?case by simp
next
  case (Cons b bs)
  have "unat b < 2 ^ LENGTH(8)" by (rule unsigned_less)
  then have "unat b < 256" by simp
  with Cons show ?case by simp
qed

lemma le_bytes_le_val: "le_bytes (length bs) (le_val bs) = bs"
proof (induction bs)
  case Nil
  then show ?case by simp
next
  case (Cons b bs)
  have "unat b < 2 ^ LENGTH(8)" by (rule unsigned_less)
  then have b: "unat b < 256" by simp
  then have "(unat b + 256 * le_val bs) mod 256 = unat b"
    and "(unat b + 256 * le_val bs) div 256 = le_val bs" by simp_all
  with Cons show ?case by simp
qed

lemma read_u32_le32: "read_u32 (le32 w @ rest) = Some (w, rest)"
proof -
  have "unat w < 2 ^ LENGTH(32)" by (rule unsigned_less)
  then have "unat w < 2 ^ 32" by simp
  then have "le_val (le_bytes 4 (unat w)) = unat w"
    by (simp add: le_val_le_bytes)
  then show ?thesis by (simp add: read_u32_def le32_def)
qed

lemma read_u64_le64: "read_u64 (le64 w @ rest) = Some (w, rest)"
proof -
  have "unat w < 2 ^ LENGTH(64)" by (rule unsigned_less)
  then have "unat w < 2 ^ 64" by simp
  then have "le_val (le_bytes 8 (unat w)) = unat w"
    by (simp add: le_val_le_bytes)
  then show ?thesis by (simp add: read_u64_def le64_def)
qed

lemma read_u32_Some:
  assumes "read_u32 bs = Some (w, rest)"
  shows "bs = le32 w @ rest"
proof -
  from assms have len: "4 \<le> length bs" and w: "w = of_nat (le_val (take 4 bs))"
    and rest: "rest = drop 4 bs"
    by (auto simp: read_u32_def split: if_splits)
  have "le_val (take 4 bs) < 256 ^ length (take 4 bs)" by (rule le_val_bound)
  with len have "le_val (take 4 bs) < 2 ^ 32" by simp
  then have "unat w = le_val (take 4 bs)" unfolding w by (simp add: unat_of_nat)
  moreover have "le_bytes (length (take 4 bs)) (le_val (take 4 bs)) = take 4 bs"
    by (rule le_bytes_le_val)
  ultimately have "le32 w = take 4 bs" using len by (simp add: le32_def)
  with rest show ?thesis by simp
qed

lemma read_u64_Some:
  assumes "read_u64 bs = Some (w, rest)"
  shows "bs = le64 w @ rest"
proof -
  from assms have len: "8 \<le> length bs" and w: "w = of_nat (le_val (take 8 bs))"
    and rest: "rest = drop 8 bs"
    by (auto simp: read_u64_def split: if_splits)
  have "le_val (take 8 bs) < 256 ^ length (take 8 bs)" by (rule le_val_bound)
  with len have "le_val (take 8 bs) < 2 ^ 64" by simp
  then have "unat w = le_val (take 8 bs)" unfolding w by (simp add: unat_of_nat)
  moreover have "le_bytes (length (take 8 bs)) (le_val (take 8 bs)) = take 8 bs"
    by (rule le_bytes_le_val)
  ultimately have "le64 w = take 8 bs" using len by (simp add: le64_def)
  with rest show ?thesis by simp
qed

lemma read_u32s_wire: "read_u32s (length cs) (concat (map le32 cs) @ rest) = Some (cs, rest)"
  by (induction cs) (simp_all add: read_u32_le32)

lemma read_u32s_Some:
  "read_u32s n bs = Some (cs, rest) \<Longrightarrow> length cs = n \<and> bs = concat (map le32 cs) @ rest"
proof (induction n arbitrary: bs cs)
  case 0
  then show ?case by simp
next
  case (Suc n)
  from Suc.prems obtain c bs1 cs' where r: "read_u32 bs = Some (c, bs1)"
    and rs: "read_u32s n bs1 = Some (cs', rest)" and cs: "cs = c # cs'"
    by (auto split: option.splits)
  from Suc.IH[OF rs] read_u32_Some[OF r] cs show ?case by simp
qed

lemma read_heredocs_wire:
  "list_all (\<lambda>(flags, len, ps). unat len = length ps) es \<Longrightarrow>
   read_heredocs (length es) (concat (map wire_entry es) @ rest) = Some (es, rest)"
proof (induction es)
  case Nil
  then show ?case by simp
next
  case (Cons e es)
  obtain flags len ps where e: "e = (flags, len, ps)" by (cases e)
  with Cons.prems have l: "unat len = length ps"
    and r: "list_all (\<lambda>(flags, len, ps). unat len = length ps) es" by simp_all
  show ?case
    using Cons.IH[OF r] l e
    by (simp add: wire_entry_def read_u32_le32 read_u64_le64 read_u32s_wire)
qed

lemma read_heredocs_Some:
  "read_heredocs n bs = Some (es, rest) \<Longrightarrow>
   length es = n \<and> bs = concat (map wire_entry es) @ rest \<and>
   list_all (\<lambda>(flags, len, ps). unat len = length ps) es"
proof (induction n arbitrary: bs es)
  case 0
  then show ?case by simp
next
  case (Suc n)
  from Suc.prems obtain flags bs1 len bs2 ps bs3 es'
    where r1: "read_u32 bs = Some (flags, bs1)" and r2: "read_u64 bs1 = Some (len, bs2)"
      and r3: "read_u32s (unat len) bs2 = Some (ps, bs3)"
      and r4: "read_heredocs n bs3 = Some (es', rest)" and es: "es = (flags, len, ps) # es'"
    by (auto split: option.splits)
  from Suc.IH[OF r4] read_u32_Some[OF r1] read_u64_Some[OF r2] read_u32s_Some[OF r3] es
  show ?case by (simp add: wire_entry_def)
qed

section \<open>What the decoder accepts\<close>

lemma deserialize_wire:
  assumes "declarable cs es"
  shows "deserialize m (wire cs es @ rest) =
     (case tree_sitter_raku_external_scanner_create m of
        (m1, sp) \<Rightarrow>
          (case rebuild_braces m1 (Some (length (braces m))) 0 (rev cs) of
             (m2, bh) \<Rightarrow>
               (case rebuild_heredocs m2 (Some (length (heredocs m))) 0 (rev es) of
                  (m3, hh) \<Rightarrow>
                    Inr (m3\<lparr>states := (states m3)
                             [sp := Some \<lparr>current_brace = bh, current_heredoc = hh\<rparr>]\<rparr>,
                         sp))))"
proof -
  from assms have lc: "length cs < 2 ^ 64" and le: "length es < 2 ^ 64"
    and ok: "list_all (\<lambda>(flags, len, ps). unat len = length ps) es"
    by (simp_all add: declarable_def)
  have uc: "unat (of_nat (length cs) :: size_t) = length cs"
    using lc by (simp add: unat_of_nat)
  have ue: "unat (of_nat (length es) :: size_t) = length es"
    using le by (simp add: unat_of_nat)
  have "0 < length (wire cs es)"
    by (simp add: wire_def)
  then have ne: "wire cs es \<noteq> []"
    by blast
  have r1: "read_u64 (wire cs es @ rest) =
      Some (of_nat (length cs), concat (map le32 cs) @ le64 (of_nat (length es)) @ concat (map wire_entry es) @ rest)"
    unfolding wire_def by (simp add: read_u64_le64)
  have r2: "read_u32s (length cs) (concat (map le32 cs) @ le64 (of_nat (length es)) @ concat (map wire_entry es) @ rest)
      = Some (cs, le64 (of_nat (length es)) @ concat (map wire_entry es) @ rest)"
    by (rule read_u32s_wire)
  have r3: "read_u64 (le64 (of_nat (length es)) @ concat (map wire_entry es) @ rest)
      = Some (of_nat (length es), concat (map wire_entry es) @ rest)"
    by (rule read_u64_le64)
  have r4: "read_heredocs (length es) (concat (map wire_entry es) @ rest) = Some (es, rest)"
    by (rule read_heredocs_wire[OF ok])
  show ?thesis
    unfolding deserialize_def using ne r1 r2 r3 r4 uc ue by simp
qed

lemma deserialize_Inr:
  assumes "deserialize m bs = Inr r" and "bs \<noteq> []"
  shows "\<exists>cs es rest. declarable cs es \<and> bs = wire cs es @ rest"
proof -
  from assms obtain nb bs1 cs bs2 nh bs3 es bs4
    where r1: "read_u64 bs = Some (nb, bs1)" and r2: "read_u32s (unat nb) bs1 = Some (cs, bs2)"
      and r3: "read_u64 bs2 = Some (nh, bs3)" and r4: "read_heredocs (unat nh) bs3 = Some (es, bs4)"
    by (auto simp: deserialize_def split: option.splits)
  from read_u32s_Some[OF r2] have lc: "length cs = unat nb" and b1: "bs1 = concat (map le32 cs) @ bs2"
    by simp_all
  from read_heredocs_Some[OF r4] have le: "length es = unat nh"
    and b3: "bs3 = concat (map wire_entry es) @ bs4"
    and ok: "list_all (\<lambda>(flags, len, ps). unat len = length ps) es" by simp_all
  have "unat nb < 2 ^ LENGTH(64)" "unat nh < 2 ^ LENGTH(64)" by (rule unsigned_less)+
  with lc le ok have d: "declarable cs es" by (simp add: declarable_def)
  have "bs = wire cs es @ bs4"
    using read_u64_Some[OF r1] read_u64_Some[OF r3] b1 b3 lc le
    by (simp add: wire_def)
  with d show ?thesis by blast
qed

lemma deserialize_error: "deserialize m bs = Inl e \<Longrightarrow> e = DeserializationCorruption"
  by (cases e) simp


lemma wire_nonempty: "wire cs es \<noteq> []"
proof -
  have "0 < length (wire cs es)" by (simp add: wire_def)
  then show ?thesis by blast
qed

lemma wire_split:
  "wire cs es @ r = le64 (of_nat (length cs)) @ concat (map le32 cs) @
                   le64 (of_nat (length es)) @ concat (map wire_entry es) @ r"
  by (simp add: wire_def)

lemma wire_unique:
  assumes "declarable cs es" and "declarable cs' es'"
    and "wire cs es @ r = wire cs' es' @ r'"
  shows "cs = cs' \<and> es = es' \<and> r = r'"
proof -
  from assms(1) have lc: "length cs < 2 ^ 64" and le: "length es < 2 ^ 64"
    and ok: "list_all (\<lambda>(flags, len, ps). unat len = length ps) es"
    by (simp_all add: declarable_def)
  from assms(2) have lc': "length cs' < 2 ^ 64" and le': "length es' < 2 ^ 64"
    and ok': "list_all (\<lambda>(flags, len, ps). unat len = length ps) es'"
    by (simp_all add: declarable_def)
  define u where "u = concat (map wire_entry es) @ r"
  define u' where "u' = concat (map wire_entry es') @ r'"
  define t where "t = le64 (of_nat (length es)) @ u"
  define t' where "t' = le64 (of_nat (length es')) @ u'"
  define s where "s = concat (map le32 cs) @ t"
  define s' where "s' = concat (map le32 cs') @ t'"
  have w: "wire cs es @ r = le64 (of_nat (length cs)) @ s"
    unfolding s_def t_def u_def by (rule wire_split)
  have w': "wire cs' es' @ r' = le64 (of_nat (length cs')) @ s'"
    unfolding s'_def t'_def u'_def by (rule wire_split)
  have e0: "le64 (of_nat (length cs)) @ s = le64 (of_nat (length cs')) @ s'"
    using assms(3) unfolding w w' .
  have "Some (of_nat (length cs) :: size_t, s) = read_u64 (le64 (of_nat (length cs)) @ s)"
    by (rule read_u64_le64[symmetric])
  also have "\<dots> = read_u64 (le64 (of_nat (length cs')) @ s')" by (simp only: e0)
  also have "\<dots> = Some (of_nat (length cs'), s')" by (rule read_u64_le64)
  finally have n: "(of_nat (length cs) :: size_t) = of_nat (length cs')" and e1: "s = s'"
    by blast+
  have "length cs mod 2 ^ 64 = length cs' mod 2 ^ 64"
    using arg_cong[OF n, of unat] by (simp only: unat_of_nat len_of_numeral_defs) simp
  with lc lc' have len: "length cs = length cs'" by simp
  have "Some (cs, t) = read_u32s (length cs) s"
    unfolding s_def by (rule read_u32s_wire[symmetric])
  also have "\<dots> = read_u32s (length cs') s'" by (simp only: e1 len)
  also have "\<dots> = Some (cs', t')" unfolding s'_def by (rule read_u32s_wire)
  finally have cs: "cs = cs'" and e2: "t = t'" by blast+
  have "Some (of_nat (length es) :: size_t, u) = read_u64 t"
    unfolding t_def by (rule read_u64_le64[symmetric])
  also have "\<dots> = read_u64 t'" by (simp only: e2)
  also have "\<dots> = Some (of_nat (length es'), u')" unfolding t'_def by (rule read_u64_le64)
  finally have n2: "(of_nat (length es) :: size_t) = of_nat (length es')" and e3: "u = u'"
    by blast+
  have "length es mod 2 ^ 64 = length es' mod 2 ^ 64"
    using arg_cong[OF n2, of unat] by (simp only: unat_of_nat len_of_numeral_defs) simp
  with le le' have len2: "length es = length es'" by simp
  have "Some (es, r) = read_heredocs (length es) u"
    unfolding u_def by (rule read_heredocs_wire[OF ok, symmetric])
  also have "\<dots> = read_heredocs (length es') u'" by (simp only: e3 len2)
  also have "\<dots> = Some (es', r')" unfolding u'_def by (rule read_heredocs_wire[OF ok'])
  finally have "es = es'" and "r = r'" by blast+
  with cs show ?thesis by blast
qed

lemma deserialize_truncated:
  assumes "declarable cs es" and "0 < k" and "k < length (wire cs es)"
  shows "deserialize m (take k (wire cs es)) = Inl DeserializationCorruption"
proof (cases "deserialize m (take k (wire cs es))")
  case (Inl e)
  then show ?thesis using deserialize_error by blast
next
  case (Inr r)
  have ne: "take k (wire cs es) \<noteq> []" using assms(2) wire_nonempty[of cs es] by simp
  from deserialize_Inr[OF Inr ne] obtain cs' es' rest
    where d: "declarable cs' es'" and t: "take k (wire cs es) = wire cs' es' @ rest" by blast
  have "wire cs es @ [] = take k (wire cs es) @ drop k (wire cs es)" by simp
  also have "\<dots> = wire cs' es' @ (rest @ drop k (wire cs es))" using t by simp
  finally have "cs = cs' \<and> es = es' \<and> [] = rest @ drop k (wire cs es)"
    by (rule wire_unique[OF assms(1) d])
  then have "[] = rest @ drop k (wire cs es)" by blast
  then have "drop k (wire cs es) = []" by simp
  then have "length (wire cs es) \<le> k" by simp
  with assms(3) show ?thesis by simp
qed

text \<open>
  Claim C8: a slice of length zero deserializes to exactly what Create returns. A non-empty
  slice is rejected with DeserializationCorruption exactly when it does not begin with the
  wire form of some declarable lists: that is, when the slice is too short for a count or
  length field, or a declared count or sentinel length asks for more bytes than the slice
  still has. In particular every proper, non-empty prefix of a wire form is rejected. The
  decoder only ever inspects bytes of the slice: an accepted slice contains every byte the
  decoded state was built from.
\<close>

theorem deserialize_validates:
  "deserialize m [] = Inr (tree_sitter_raku_external_scanner_create m) \<and>
   (deserialize m bs = Inl DeserializationCorruption \<longleftrightarrow>
      bs \<noteq> [] \<and> \<not> (\<exists>cs es rest. declarable cs es \<and> bs = wire cs es @ rest)) \<and>
   (declarable cs es \<and> 0 < k \<and> k < length (wire cs es) \<longrightarrow>
      deserialize m (take k (wire cs es)) = Inl DeserializationCorruption)"
proof (intro conjI)
  show "deserialize m [] = Inr (tree_sitter_raku_external_scanner_create m)"
    by (simp add: deserialize_def)
  show "deserialize m bs = Inl DeserializationCorruption \<longleftrightarrow>
      bs \<noteq> [] \<and> \<not> (\<exists>cs es rest. declarable cs es \<and> bs = wire cs es @ rest)"
  proof
    assume l: "deserialize m bs = Inl DeserializationCorruption"
    then have "bs \<noteq> []" by (auto simp: deserialize_def)
    moreover have "\<not> (\<exists>cs es rest. declarable cs es \<and> bs = wire cs es @ rest)"
    proof
      assume "\<exists>cs es rest. declarable cs es \<and> bs = wire cs es @ rest"
      then obtain cs es rest where "declarable cs es" and "bs = wire cs es @ rest" by blast
      with l deserialize_wire[of cs es m rest] show False
        by (simp split: prod.splits)
    qed
    ultimately show "bs \<noteq> [] \<and> \<not> (\<exists>cs es rest. declarable cs es \<and> bs = wire cs es @ rest)"
      by blast
  next
    assume r: "bs \<noteq> [] \<and> \<not> (\<exists>cs es rest. declarable cs es \<and> bs = wire cs es @ rest)"
    show "deserialize m bs = Inl DeserializationCorruption"
    proof (cases "deserialize m bs")
      case (Inl e)
      then show ?thesis using deserialize_error by blast
    next
      case (Inr x)
      with r deserialize_Inr[of m bs x] show ?thesis by blast
    qed
  qed
  show "declarable cs es \<and> 0 < k \<and> k < length (wire cs es) \<longrightarrow>
      deserialize m (take k (wire cs es)) = Inl DeserializationCorruption"
    using deserialize_truncated by blast
qed

theorem deserialize_validates_witness:
  "declarable [0x29] [] \<and> (0::nat) < 10 \<and> 10 < length (wire [0x29] []) \<and>
   deserialize empty_memory (take 10 (wire [0x29] [])) = Inl DeserializationCorruption \<and>
   deserialize empty_memory [] = Inr (tree_sitter_raku_external_scanner_create empty_memory)"
proof -
  have h: "declarable [0x29] []" "10 < length (wire [0x29] [])"
    by (simp_all add: declarable_def wire_def)
  from deserialize_validates[of empty_memory "[]" "[0x29]" "[]" 10] h show ?thesis by simp
qed

section \<open>Rebuilding the stacks\<close>

lemma unat_eq_of_nat: "unat (w :: size_t) = n \<Longrightarrow> w = of_nat n"
  by auto

lemma unat_of_nat_64: "n < 2 ^ 64 \<Longrightarrow> unat (of_nat n :: size_t) = n"
  by (simp add: unat_of_nat)

lemma rebuild_braces_chain:
  assumes "brace_chain m head fs" and "length fs = Suc d" and "length fs + length cs \<le> 2 ^ 64"
  shows "\<exists>m' head' fs'. rebuild_braces m head d cs = (m', head') \<and>
           brace_chain m' head' fs' \<and> fs' \<noteq> [] \<and>
           map (\<lambda>(p, f). closing_brace f) fs' = rev cs @ map (\<lambda>(p, f). closing_brace f) fs \<and>
           heredocs m' = heredocs m \<and> states m' = states m"
  using assms
proof (induction cs arbitrary: m head fs d)
  case Nil
  then show ?case by auto
next
  case (Cons c cs)
  let ?g = "\<lparr>brace_stack.depth = of_nat (Suc d), closing_brace = c, brace_stack.next = head\<rparr>"
  let ?q = "length (braces m)"
  let ?m1 = "m\<lparr>braces := braces m @ [Some ?g]\<rparr>"
  from Cons.prems have b: "Suc d < 2 ^ 64" by simp
  have u: "unat (brace_stack.depth ?g) = length fs"
    using unat_of_nat_64[OF b] Cons.prems(2) by simp
  have old: "brace_chain ?m1 head fs" by (rule brace_chain_append[OF Cons.prems(1)])
  have new: "brace_chain ?m1 (Some ?q) ((?q, ?g) # fs)"
    using old u by (simp add: deref_append_new)
  have len: "length ((?q, ?g) # fs) = Suc (Suc d)" using Cons.prems(2) by simp
  have bound: "length ((?q, ?g) # fs) + length cs \<le> 2 ^ 64" using Cons.prems(3) by simp
  from Cons.IH[OF new len bound] obtain m' head' fs'
    where r: "rebuild_braces ?m1 (Some ?q) (Suc d) cs = (m', head')"
      and ch: "brace_chain m' head' fs'" and ne: "fs' \<noteq> []"
      and cl: "map (\<lambda>(p, f). closing_brace f) fs' =
               rev cs @ map (\<lambda>(p, f). closing_brace f) ((?q, ?g) # fs)"
      and h: "heredocs m' = heredocs ?m1" and s: "states m' = states ?m1"
    by blast
  show ?case
    using r ch ne cl h s by auto
qed

lemma rebuild_heredocs_chain:
  assumes "heredoc_chain m head fs" and "length fs = Suc d" and "length fs + length es \<le> 2 ^ 64"
    and "list_all (\<lambda>(flags, len, ps). unat len = length ps \<and> 4 * length ps < 2 ^ 64) es"
  shows "\<exists>m' head' fs'. rebuild_heredocs m head d es = (m', head') \<and>
           heredoc_chain m' head' fs' \<and> fs' \<noteq> [] \<and>
           map (\<lambda>(p, f). (all_flags f, sentinel_length f, sentinel f)) fs' =
             rev (map (\<lambda>(flags, len, ps). (flags, len, Some ps)) es) @
             map (\<lambda>(p, f). (all_flags f, sentinel_length f, sentinel f)) fs \<and>
           braces m' = braces m \<and> states m' = states m"
  using assms
proof (induction es arbitrary: m head fs d)
  case Nil
  then show ?case by auto
next
  case (Cons e es)
  obtain flags len ps where e: "e = (flags, len, ps)" by (cases e)
  let ?g = "\<lparr>heredoc_stack.depth = of_nat (Suc d), sentinel = Some ps, sentinel_length = len,
             all_flags = flags, heredoc_stack.next = head\<rparr>"
  let ?q = "length (heredocs m)"
  let ?m1 = "m\<lparr>heredocs := heredocs m @ [Some ?g]\<rparr>"
  from Cons.prems e have ok: "unat len = length ps" "4 * length ps < 2 ^ 64"
    and rest: "list_all (\<lambda>(flags, len, ps). unat len = length ps \<and> 4 * length ps < 2 ^ 64) es"
    by simp_all
  from Cons.prems have b: "Suc d < 2 ^ 64" by simp
  have u: "unat (heredoc_stack.depth ?g) = length fs"
    using unat_of_nat_64[OF b] Cons.prems(2) by simp
  have sok: "sentinel_ok ?g" using ok by (simp add: sentinel_ok_def)
  have old: "heredoc_chain ?m1 head fs" by (rule heredoc_chain_append[OF Cons.prems(1)])
  have new: "heredoc_chain ?m1 (Some ?q) ((?q, ?g) # fs)"
    using old u sok by (simp add: deref_append_new)
  have len: "length ((?q, ?g) # fs) = Suc (Suc d)" using Cons.prems(2) by simp
  have bound: "length ((?q, ?g) # fs) + length es \<le> 2 ^ 64" using Cons.prems(3) by simp
  from Cons.IH[OF new len bound rest] obtain m' head' fs'
    where r: "rebuild_heredocs ?m1 (Some ?q) (Suc d) es = (m', head')"
      and ch: "heredoc_chain m' head' fs'" and ne: "fs' \<noteq> []"
      and cl: "map (\<lambda>(p, f). (all_flags f, sentinel_length f, sentinel f)) fs' =
               rev (map (\<lambda>(flags, len, ps). (flags, len, Some ps)) es) @
               map (\<lambda>(p, f). (all_flags f, sentinel_length f, sentinel f)) ((?q, ?g) # fs)"
      and h: "braces m' = braces ?m1" and s: "states m' = states ?m1"
    by blast
  show ?case
    using r ch ne cl h s e by auto
qed

lemma brace_view_eq:
  "brace_chain m head fs \<Longrightarrow> brace_chain m' head' fs' \<Longrightarrow>
   map (\<lambda>(p, f). closing_brace f) fs = map (\<lambda>(p, f). closing_brace f) fs' \<Longrightarrow>
   brace_view fs = brace_view fs'"
proof (induction fs arbitrary: head head' fs')
  case Nil
  then show ?case by (simp add: brace_view_def)
next
  case (Cons pf rest)
  obtain p f where pf: "pf = (p, f)" by (cases pf)
  from Cons.prems(3) obtain pf' rest' where fs': "fs' = pf' # rest'" by (cases fs') auto
  obtain p' f' where pf': "pf' = (p', f')" by (cases pf')
  from Cons.prems(3) fs' pf pf' have c: "closing_brace f = closing_brace f'"
    and m: "map (\<lambda>(p, f). closing_brace f) rest = map (\<lambda>(p, f). closing_brace f) rest'"
    by simp_all
  from m have l: "length rest = length rest'" by (rule map_eq_imp_length_eq)
  from Cons.prems(1) pf have u: "unat (brace_stack.depth f) = length rest"
    and ch: "brace_chain m (brace_stack.next f) rest" by simp_all
  from Cons.prems(2) fs' pf' have u': "unat (brace_stack.depth f') = length rest'"
    and ch': "brace_chain m' (brace_stack.next f') rest'" by simp_all
  from u u' l have d: "brace_stack.depth f = brace_stack.depth f'"
    by (simp add: word_unat_eq_iff)
  from Cons.IH[OF ch ch' m] c d pf pf' fs' show ?case by (simp add: brace_view_def)
qed

lemma heredoc_view_eq:
  "heredoc_chain m head fs \<Longrightarrow> heredoc_chain m' head' fs' \<Longrightarrow>
   map (\<lambda>(p, f). (all_flags f, sentinel_length f, sentinel f)) fs =
   map (\<lambda>(p, f). (all_flags f, sentinel_length f, sentinel f)) fs' \<Longrightarrow>
   heredoc_view fs = heredoc_view fs'"
proof (induction fs arbitrary: head head' fs')
  case Nil
  then show ?case by (simp add: heredoc_view_def)
next
  case (Cons pf rest)
  obtain p f where pf: "pf = (p, f)" by (cases pf)
  from Cons.prems(3) obtain pf' rest' where fs': "fs' = pf' # rest'" by (cases fs') auto
  obtain p' f' where pf': "pf' = (p', f')" by (cases pf')
  from Cons.prems(3) fs' pf pf'
  have c: "all_flags f = all_flags f'" "sentinel_length f = sentinel_length f'" "sentinel f = sentinel f'"
    and m: "map (\<lambda>(p, f). (all_flags f, sentinel_length f, sentinel f)) rest =
            map (\<lambda>(p, f). (all_flags f, sentinel_length f, sentinel f)) rest'"
    by simp_all
  from m have l: "length rest = length rest'" by (rule map_eq_imp_length_eq)
  from Cons.prems(1) pf have u: "unat (heredoc_stack.depth f) = length rest"
    and ch: "heredoc_chain m (heredoc_stack.next f) rest" by simp_all
  from Cons.prems(2) fs' pf' have u': "unat (heredoc_stack.depth f') = length rest'"
    and ch': "heredoc_chain m' (heredoc_stack.next f') rest'" by simp_all
  from u u' l have d: "heredoc_stack.depth f = heredoc_stack.depth f'"
    by (simp add: word_unat_eq_iff)
  from Cons.IH[OF ch ch' m] c d pf pf' fs' show ?case by (simp add: heredoc_view_def)
qed

lemma heredoc_chain_sentinels:
  "heredoc_chain m head hs \<Longrightarrow> (p, f) \<in> set (butlast hs) \<Longrightarrow> sentinel_ok f"
proof (induction hs arbitrary: head)
  case Nil
  then show ?case by simp
next
  case (Cons qg rest)
  obtain q g where qg: "qg = (q, g)" by (cases qg)
  show ?case
  proof (cases "rest = []")
    case True
    with Cons.prems show ?thesis by simp
  next
    case False
    with Cons.prems qg have ok: "sentinel_ok g" and ch: "heredoc_chain m (heredoc_stack.next g) rest"
      and mem: "(p, f) = (q, g) \<or> (p, f) \<in> set (butlast rest)" by auto
    from mem show ?thesis
    proof
      assume "(p, f) = (q, g)"
      with ok show ?thesis by simp
    next
      assume "(p, f) \<in> set (butlast rest)"
      with Cons.IH[OF ch] show ?thesis by simp
    qed
  qed
qed

text \<open>
  What the serializer writes for a well-formed state is the wire form of its closing
  delimiters and heredoc entries, top first and without the roots.
\<close>

lemma stacks_wire:
  assumes "stacks_at m sp bs hs"
  shows "brace_section bs @ heredoc_section hs =
           wire (map (\<lambda>(p, f). closing_brace f) (butlast bs))
                (map (\<lambda>(p, f). (all_flags f, sentinel_length f, the (sentinel f))) (butlast hs))"
    and "declarable (map (\<lambda>(p, f). closing_brace f) (butlast bs))
                (map (\<lambda>(p, f). (all_flags f, sentinel_length f, the (sentinel f))) (butlast hs))"
    and "list_all (\<lambda>(flags, len, ps). unat len = length ps \<and> 4 * length ps < 2 ^ 64)
                (map (\<lambda>(p, f). (all_flags f, sentinel_length f, the (sentinel f))) (butlast hs))"
proof -
  from assms obtain s where st: "deref (states m) sp = Some s" and bne: "bs \<noteq> []" and bch: "brace_chain m (current_brace s) bs"
    and hne: "hs \<noteq> []" and hch: "heredoc_chain m (current_heredoc s) hs"
    by (auto simp: stacks_at_def split: option.splits)
  from bne obtain bp bf brest where bs: "bs = (bp, bf) # brest" by (cases bs) auto
  from hne obtain hp hf hrest where hs: "hs = (hp, hf) # hrest" by (cases hs) auto
  from bch bs have bu: "unat (brace_stack.depth bf) = length brest" by simp
  then have bd: "brace_stack.depth bf = of_nat (length brest)" by (rule unat_eq_of_nat)
  have "unat (brace_stack.depth bf) < 2 ^ LENGTH(64)" by (rule unsigned_less)
  with bu have bl: "length brest < 2 ^ 64" by simp
  from hch hs have hu: "unat (heredoc_stack.depth hf) = length hrest" by simp
  then have hd: "heredoc_stack.depth hf = of_nat (length hrest)" by (rule unat_eq_of_nat)
  have "unat (heredoc_stack.depth hf) < 2 ^ LENGTH(64)" by (rule unsigned_less)
  with hu have hl: "length hrest < 2 ^ 64" by simp
  have ok: "sentinel_ok f" if "(p, f) \<in> set (butlast hs)" for p f
    using hch that by (rule heredoc_chain_sentinels)
  have enc: "encode_heredoc f = wire_entry (all_flags f, sentinel_length f, the (sentinel f))"
    if "(p, f) \<in> set (butlast hs)" for p f
    using ok[OF that] by (auto simp: sentinel_ok_def encode_heredoc_def wire_entry_def split: option.splits)
  have e1: "map (\<lambda>(p, f). encode_heredoc f) (butlast hs) =
        map wire_entry (map (\<lambda>(p, f). (all_flags f, sentinel_length f, the (sentinel f))) (butlast hs))"
    using enc by (auto simp: map_eq_conv)
  have e2: "map (\<lambda>(p, f). le32 (closing_brace f)) (butlast bs) =
        map le32 (map (\<lambda>(p, f). closing_brace f) (butlast bs))"
    by (auto simp: map_eq_conv)
  show "brace_section bs @ heredoc_section hs =
           wire (map (\<lambda>(p, f). closing_brace f) (butlast bs))
                (map (\<lambda>(p, f). (all_flags f, sentinel_length f, the (sentinel f))) (butlast hs))"
    unfolding brace_section_def heredoc_section_def wire_def e1 e2
    using bs hs bd hd by simp
  have ok': "unat (sentinel_length f) = length (the (sentinel f)) \<and>
             4 * length (the (sentinel f)) < 2 ^ 64"
    if "(p, f) \<in> set (butlast hs)" for p f
    using ok[OF that] by (auto simp: sentinel_ok_def split: option.splits)
  show la: "list_all (\<lambda>(flags, len, ps). unat len = length ps \<and> 4 * length ps < 2 ^ 64)
                (map (\<lambda>(p, f). (all_flags f, sentinel_length f, the (sentinel f))) (butlast hs))"
    unfolding list_all_iff using ok' by fastforce
  then have "list_all (\<lambda>(flags, len, ps). unat len = length ps)
                (map (\<lambda>(p, f). (all_flags f, sentinel_length f, the (sentinel f))) (butlast hs))"
    unfolding list_all_iff by fastforce
  then show "declarable (map (\<lambda>(p, f). closing_brace f) (butlast bs))
                (map (\<lambda>(p, f). (all_flags f, sentinel_length f, the (sentinel f))) (butlast hs))"
    unfolding declarable_def using bs hs bl hl by simp
qed

section \<open>Round trip\<close>

lemma deserialize_rebuilds:
  assumes "declarable cs es"
    and "list_all (\<lambda>(flags, len, ps). unat len = length ps \<and> 4 * length ps < 2 ^ 64) es"
  shows "\<exists>m' sp' bs' hs'. deserialize m0 (wire cs es @ rest) = Inr (m', sp') \<and>
           stacks_at m' sp' bs' hs' \<and>
           map (\<lambda>(p, f). closing_brace f) bs' = cs @ [0] \<and>
           map (\<lambda>(p, f). (all_flags f, sentinel_length f, sentinel f)) hs' =
             map (\<lambda>(flags, len, ps). (flags, len, Some ps)) es @ [(0, 0, None)]"
proof -
  from assms(1) have lc: "length cs < 2 ^ 64" and le: "length es < 2 ^ 64"
    by (simp_all add: declarable_def)
  let ?rb = "length (braces m0)"
  let ?rh = "length (heredocs m0)"
  let ?sp = "length (states m0)"
  define m1 where "m1 = fst (tree_sitter_raku_external_scanner_create m0)"
  have cr: "tree_sitter_raku_external_scanner_create m0 = (m1, ?sp)"
    unfolding m1_def by (simp add: tree_sitter_raku_external_scanner_create_def Let_def)
  have b1: "brace_chain m1 (Some ?rb) [(?rb, example_brace_root)]"
    unfolding m1_def
    by (simp add: tree_sitter_raku_external_scanner_create_def Let_def deref_append_new
        example_brace_root_def)
  have h1: "heredoc_chain m1 (Some ?rh) [(?rh, example_heredoc_root)]"
    unfolding m1_def
    by (simp add: tree_sitter_raku_external_scanner_create_def Let_def deref_append_new
        example_heredoc_root_def)
  have s1: "length (states m1) = Suc ?sp"
    unfolding m1_def by (simp add: tree_sitter_raku_external_scanner_create_def Let_def)
  have "\<exists>m' head' fs'. rebuild_braces m1 (Some ?rb) 0 (rev cs) = (m', head') \<and>
           brace_chain m' head' fs' \<and> fs' \<noteq> [] \<and>
           map (\<lambda>(p, f). closing_brace f) fs' =
             rev (rev cs) @ map (\<lambda>(p, f). closing_brace f) [(?rb, example_brace_root)] \<and>
           heredocs m' = heredocs m1 \<and> states m' = states m1"
    by (rule rebuild_braces_chain[OF b1]) (use lc in simp_all)
  then obtain m2 bh bs' where r2: "rebuild_braces m1 (Some ?rb) 0 (rev cs) = (m2, bh)"
    and b2: "brace_chain m2 bh bs'" and bne: "bs' \<noteq> []"
    and bc: "map (\<lambda>(p, f). closing_brace f) bs' = cs @ [0]"
    and h2: "heredocs m2 = heredocs m1" and s2: "states m2 = states m1"
    by (auto simp: example_brace_root_def)
  have h2c: "heredoc_chain m2 (Some ?rh) [(?rh, example_heredoc_root)]"
    using h1 heredoc_chain_heredocs_eq[OF h2] by blast
  have la: "list_all (\<lambda>(flags, len, ps). unat len = length ps \<and> 4 * length ps < 2 ^ 64) (rev es)"
    using assms(2) by simp
  have "\<exists>m' head' fs'. rebuild_heredocs m2 (Some ?rh) 0 (rev es) = (m', head') \<and>
           heredoc_chain m' head' fs' \<and> fs' \<noteq> [] \<and>
           map (\<lambda>(p, f). (all_flags f, sentinel_length f, sentinel f)) fs' =
             rev (map (\<lambda>(flags, len, ps). (flags, len, Some ps)) (rev es)) @
             map (\<lambda>(p, f). (all_flags f, sentinel_length f, sentinel f)) [(?rh, example_heredoc_root)] \<and>
           braces m' = braces m2 \<and> states m' = states m2"
    by (rule rebuild_heredocs_chain[OF h2c _ _ la]) (use le in simp_all)
  then obtain m3 hh hs' where r3: "rebuild_heredocs m2 (Some ?rh) 0 (rev es) = (m3, hh)"
    and h3: "heredoc_chain m3 hh hs'" and hne: "hs' \<noteq> []"
    and hc: "map (\<lambda>(p, f). (all_flags f, sentinel_length f, sentinel f)) hs' =
             map (\<lambda>(flags, len, ps). (flags, len, Some ps)) es @ [(0, 0, None)]"
    and b3: "braces m3 = braces m2" and s3: "states m3 = states m2"
    by (auto simp: example_heredoc_root_def rev_map)
  have b3c: "brace_chain m3 bh bs'"
    using b2 brace_chain_braces_eq[OF b3] by blast
  let ?m4 = "m3\<lparr>states := (states m3)[?sp := Some \<lparr>current_brace = bh, current_heredoc = hh\<rparr>]\<rparr>"
  have b4: "brace_chain ?m4 bh bs'"
    using b3c brace_chain_braces_eq[of ?m4 m3] by simp
  have h4: "heredoc_chain ?m4 hh hs'"
    using h3 heredoc_chain_heredocs_eq[of ?m4 m3] by simp
  have d4: "deref (states ?m4) ?sp = Some \<lparr>current_brace = bh, current_heredoc = hh\<rparr>"
    using s1 s2 s3 by (simp add: deref_update_same)
  have st: "stacks_at ?m4 ?sp bs' hs'"
    unfolding stacks_at_def using d4 b4 h4 bne hne by simp
  have "deserialize m0 (wire cs es @ rest) = Inr (?m4, ?sp)"
    unfolding deserialize_wire[OF assms(1)] cr using r2 r3 by simp
  with st bc hc show ?thesis by blast
qed

lemma map_butlast_last:
  "xs \<noteq> [] \<Longrightarrow> map f xs = map f (butlast xs) @ [f (last xs)]"
  by (induction xs) auto

lemma roundtrip:
  assumes "stacks_at m sp bs hs" and "roots_zeroed bs hs"
  shows "\<exists>m' sp' bs' hs'.
           deserialize m0 (brace_section bs @ heredoc_section hs) = Inr (m', sp') \<and>
           stacks_at m' sp' bs' hs' \<and> roots_zeroed bs' hs' \<and>
           brace_view bs' = brace_view bs \<and> heredoc_view hs' = heredoc_view hs"
proof -
  let ?cs = "map (\<lambda>(p, f). closing_brace f) (butlast bs)"
  let ?es = "map (\<lambda>(p, f). (all_flags f, sentinel_length f, the (sentinel f))) (butlast hs)"
  from assms(1) obtain s where st: "deref (states m) sp = Some s" and bne: "bs \<noteq> []"
    and bch: "brace_chain m (current_brace s) bs"
    and hne: "hs \<noteq> []" and hch: "heredoc_chain m (current_heredoc s) hs"
    by (auto simp: stacks_at_def split: option.splits)
  from assms(2) have rz: "closing_brace (snd (last bs)) = 0" "sentinel (snd (last hs)) = None"
    "sentinel_length (snd (last hs)) = 0" "all_flags (snd (last hs)) = 0"
    by (simp_all add: roots_zeroed_def)
  note w = stacks_wire[OF assms(1)]
  from deserialize_rebuilds[OF w(2) w(3), of m0 "[]"] obtain m' sp' bs' hs'
    where d: "deserialize m0 (wire ?cs ?es) = Inr (m', sp')"
      and st': "stacks_at m' sp' bs' hs'"
      and bc: "map (\<lambda>(p, f). closing_brace f) bs' = ?cs @ [0]"
      and hc: "map (\<lambda>(p, f). (all_flags f, sentinel_length f, sentinel f)) hs' =
             map (\<lambda>(flags, len, ps). (flags, len, Some ps)) ?es @ [(0, 0, None)]"
    by auto
  from st' obtain s' where bne': "bs' \<noteq> []" and bch': "brace_chain m' (current_brace s') bs'"
    and st'': "deref (states m') sp' = Some s'"
    and hne': "hs' \<noteq> []" and hch': "heredoc_chain m' (current_heredoc s') hs'"
    by (auto simp: stacks_at_def split: option.splits)
  have bmap: "map (\<lambda>(p, f). closing_brace f) bs = ?cs @ [0]"
    using map_butlast_last[OF bne, of "\<lambda>(p, f). closing_brace f"] rz(1)
    by (simp add: case_prod_unfold)
  have some: "sentinel f = Some (the (sentinel f))" if "(p, f) \<in> set (butlast hs)" for p f
    using heredoc_chain_sentinels[OF hch that]
    by (auto simp: sentinel_ok_def split: option.splits)
  have "map (\<lambda>(p, f). (all_flags f, sentinel_length f, sentinel f)) (butlast hs) =
        map (\<lambda>(flags, len, ps). (flags, len, Some ps)) ?es"
    using some by (auto simp: map_eq_conv)
  then have hmap: "map (\<lambda>(p, f). (all_flags f, sentinel_length f, sentinel f)) hs =
        map (\<lambda>(flags, len, ps). (flags, len, Some ps)) ?es @ [(0, 0, None)]"
    using map_butlast_last[OF hne, of "\<lambda>(p, f). (all_flags f, sentinel_length f, sentinel f)"] rz
    by (simp add: case_prod_unfold)
  have bv: "brace_view bs' = brace_view bs"
    using bch' bch by (rule brace_view_eq) (simp only: bc bmap)
  have hv: "heredoc_view hs' = heredoc_view hs"
    using hch' hch by (rule heredoc_view_eq) (simp only: hc hmap)
  have lb: "closing_brace (snd (last bs')) = 0"
    using arg_cong[OF bc, of last] bne' by (simp add: last_map case_prod_unfold)
  have lh: "(all_flags (snd (last hs')), sentinel_length (snd (last hs')), sentinel (snd (last hs')))
        = (0, 0, None)"
    using arg_cong[OF hc, of last] hne' by (simp add: last_map case_prod_unfold)
  have rz': "roots_zeroed bs' hs'"
    using lb lh bne' hne' by (simp add: roots_zeroed_def)
  from d st' rz' bv hv show ?thesis
    unfolding w(1) by blast
qed

text \<open>
  Every state reached from Create by brace pushes and pops is well-formed, with zeroed
  roots. (No heredoc operation returns a stack on such a state, so these are all the
  states the stack operations reach.)
\<close>

lemma reachable_stacks:
  assumes "run_brace_ops tbl (fst (tree_sitter_raku_external_scanner_create m0))
             (Some (length (braces m0))) ops = Some (Inr (m', head'))"
    and "length ops < 2 ^ 64"
  shows "\<exists>bs. stacks_at (set_current_brace m' (length (states m0)) head') (length (states m0))
                 bs [(length (heredocs m0), example_heredoc_root)] \<and>
              roots_zeroed bs [(length (heredocs m0), example_heredoc_root)] \<and>
              net_depth ops 0 = Some (length bs - 1)"
proof -
  let ?rb = "length (braces m0)"
  let ?rh = "length (heredocs m0)"
  let ?sp = "length (states m0)"
  define m1 where "m1 = fst (tree_sitter_raku_external_scanner_create m0)"
  have b1: "brace_chain m1 (Some ?rb) [(?rb, example_brace_root)]"
    unfolding m1_def
    by (simp add: tree_sitter_raku_external_scanner_create_def Let_def deref_append_new
        example_brace_root_def)
  have h1: "heredoc_chain m1 (Some ?rh) [(?rh, example_heredoc_root)]"
    unfolding m1_def
    by (simp add: tree_sitter_raku_external_scanner_create_def Let_def deref_append_new
        example_heredoc_root_def)
  have s1: "deref (states m1) ?sp = Some \<lparr>current_brace = Some ?rb, current_heredoc = Some ?rh\<rparr>"
    unfolding m1_def
    by (simp add: tree_sitter_raku_external_scanner_create_def Let_def deref_append_new)
  have bound: "length [(?rb, example_brace_root)] + length ops \<le> 2 ^ 64"
    using assms(2) by simp
  note inv = run_brace_ops_chain[OF b1 _ bound, of tbl]
  from assms(1) have run: "run_brace_ops tbl m1 (Some ?rb) ops = Some (Inr (m', head'))"
    unfolding m1_def .
  from inv run obtain d fs' where nd: "net_depth ops 0 = Some d"
    and ch: "brace_chain m' head' fs'" and len: "length fs' = Suc d"
    and la: "last fs' = (?rb, example_brace_root)"
    and hm: "heredocs m' = heredocs m1" and sm: "states m' = states m1"
    by (cases "net_depth ops 0") auto
  let ?m2 = "set_current_brace m' ?sp head'"
  have s2: "deref (states m') ?sp = Some \<lparr>current_brace = Some ?rb, current_heredoc = Some ?rh\<rparr>"
    using s1 sm by simp
  have m2: "?m2 = m'\<lparr>states := (states m')[?sp := Some \<lparr>current_brace = head', current_heredoc = Some ?rh\<rparr>]\<rparr>"
    using s2 by (simp add: set_current_brace_def)
  have d2: "deref (states ?m2) ?sp = Some \<lparr>current_brace = head', current_heredoc = Some ?rh\<rparr>"
    unfolding m2 using deref_Some_less[OF s2] by (simp add: deref_update_same)
  have b2: "brace_chain ?m2 head' fs'"
    using ch brace_chain_braces_eq[of ?m2 m'] unfolding m2 by simp
  have "heredoc_chain m' (Some ?rh) [(?rh, example_heredoc_root)]"
    using h1 heredoc_chain_heredocs_eq[OF hm] by blast
  then have h2: "heredoc_chain ?m2 (Some ?rh) [(?rh, example_heredoc_root)]"
    using heredoc_chain_heredocs_eq[of ?m2 m'] unfolding m2 by simp
  from len have ne: "fs' \<noteq> []" by auto
  have st: "stacks_at ?m2 ?sp fs' [(?rh, example_heredoc_root)]"
    unfolding stacks_at_def using d2 b2 h2 ne by simp
  have rz: "roots_zeroed fs' [(?rh, example_heredoc_root)]"
    using ne la by (simp add: roots_zeroed_def example_brace_root_def example_heredoc_root_def)
  from st rz nd len show ?thesis by auto
qed










text \<open>
  Claim C7: with \<open>(\<close> mapped to \<open>)\<close> by the pair table, from a freshly created state
  push \<open>(\<close>, push \<open>[\<close>, pop leaves a top frame of depth 1 with closing delimiter
  \<open>)\<close> directly on the root; that state serializes to 20 bytes, and deserializing
  them gives a brace stack of depth 1 whose one recorded closing delimiter is \<open>)\<close>,
  over the root, and a root-only heredoc stack.
\<close>

theorem brace_scenario:
  assumes "40 < BACE_TABLE_MAX tbl" and "BRACE_TABLE tbl 0x28 = 0x29"
  shows "\<exists>m3 top f.
           run_brace_ops tbl (fst (tree_sitter_raku_external_scanner_create empty_memory)) (Some 0)
             [Push 0x28, Push 0x5B, Pop] = Some (Inr (m3, Some top)) \<and>
           deref (braces m3) top = Some f \<and> brace_stack.depth f = 1 \<and>
           closing_brace f = 0x29 \<and> brace_stack.next f = Some 0 \<and>
           tree_sitter_raku_external_scanner_serialize 1024
             (set_current_brace m3 0 (Some top)) (Some 0)
             = Some ([1, 0, 0, 0, 0, 0, 0, 0,  0x29, 0, 0, 0,  0, 0, 0, 0, 0, 0, 0, 0], Inr 20) \<and>
           (\<exists>m' sp' bs' hs'.
              deserialize m0 [1, 0, 0, 0, 0, 0, 0, 0,  0x29, 0, 0, 0,  0, 0, 0, 0, 0, 0, 0, 0]
                = Inr (m', sp') \<and>
              stacks_at m' sp' bs' hs' \<and>
              brace_view bs' = [(1, 0x29), (0, 0)] \<and>
              heredoc_view hs' = [(0, 0, 0, None)])"
proof -
  let ?bytes = "[1, 0, 0, 0, 0, 0, 0, 0,  0x29, 0, 0, 0,  0, 0, 0, 0, 0, 0, 0, 0] :: byte list"
  let ?f1 = "\<lparr>brace_stack.depth = 1, closing_brace = 0x29, brace_stack.next = Some 0\<rparr>"
  let ?f2 = "\<lparr>brace_stack.depth = 2,
              closing_brace = (if in_pair_table tbl 0x5B then BRACE_TABLE tbl 0x5B else 0x5B),
              brace_stack.next = Some 1\<rparr>"
  let ?hs = "[Some example_heredoc_root]"
  let ?st = "[Some \<lparr>current_brace = Some 0, current_heredoc = Some 0\<rparr>]"
  let ?m1 = "\<lparr>braces = [Some example_brace_root], heredocs = ?hs, states = ?st\<rparr>"
  let ?m2 = "\<lparr>braces = [Some example_brace_root, Some ?f1], heredocs = ?hs, states = ?st\<rparr>"
  let ?m3 = "\<lparr>braces = [Some example_brace_root, Some ?f1, Some ?f2], heredocs = ?hs, states = ?st\<rparr>"
  let ?m4 = "\<lparr>braces = [Some example_brace_root, Some ?f1, None], heredocs = ?hs, states = ?st\<rparr>"
  let ?m5 = "\<lparr>braces = [Some example_brace_root, Some ?f1, None], heredocs = ?hs,
              states = [Some \<lparr>current_brace = Some 1, current_heredoc = Some 0\<rparr>]\<rparr>"
  have t: "in_pair_table tbl 0x28" using assms by (simp add: in_pair_table_def)
  have cr: "fst (tree_sitter_raku_external_scanner_create empty_memory) = ?m1"
    by (simp add: tree_sitter_raku_external_scanner_create_def empty_memory_def
        example_brace_root_def example_heredoc_root_def)
  have d1: "deref (braces ?m1) 0 = Some example_brace_root" by (simp add: deref_def)
  have p1: "brace_stack_push tbl ?m1 (Some 0) 0x28 = Inr (?m2, Some 1)"
    unfolding brace_stack_push_eq[OF d1] using t assms(2) by (simp add: example_brace_root_def)
  have d2: "deref (braces ?m2) 1 = Some ?f1" by (simp add: deref_def)
  have p2: "brace_stack_push tbl ?m2 (Some 1) 0x5B = Inr (?m3, Some 2)"
    unfolding brace_stack_push_eq[OF d2] by simp
  have d3: "deref (braces ?m3) 2 = Some ?f2" by (simp add: deref_def)
  have p3: "brace_stack_pop ?m3 (Some 2) = Some (Inr (?m4, Some 1))"
    unfolding brace_stack_pop_eq[OF d3] by simp
  have run: "run_brace_ops tbl (fst (tree_sitter_raku_external_scanner_create empty_memory)) (Some 0)
             [Push 0x28, Push 0x5B, Pop] = Some (Inr (?m4, Some 1))"
    unfolding cr using p1 p2 p3 by simp
  have d4: "deref (braces ?m4) 1 = Some ?f1" by (simp add: deref_def)
  have sc: "set_current_brace ?m4 0 (Some 1) = ?m5"
    by (simp add: set_current_brace_def deref_def)
  let ?bs = "[(1, ?f1), (0, example_brace_root)]"
  let ?hc = "[(0, example_heredoc_root)]"
  have st: "stacks_at ?m5 0 ?bs ?hc"
    by (simp add: stacks_at_def deref_def example_brace_root_def example_heredoc_root_def)
  have rz: "roots_zeroed ?bs ?hc"
    by (simp add: roots_zeroed_def example_brace_root_def example_heredoc_root_def)
  have enc: "brace_section ?bs @ heredoc_section ?hc = ?bytes"
    by (simp add: brace_section_def heredoc_section_def example_heredoc_root_def le_eval)
  have ser: "tree_sitter_raku_external_scanner_serialize 1024 ?m5 (Some 0) = Some (?bytes, Inr 20)"
    unfolding serialize_layout[OF st] enc by (simp add: length_brace_section)
  have bv: "brace_view ?bs = [(1, 0x29), (0, 0)]"
    by (simp add: brace_view_def example_brace_root_def)
  have hv: "heredoc_view ?hc = [(0, 0, 0, None)]"
    by (simp add: heredoc_view_def example_heredoc_root_def)
  from roundtrip[OF st rz, of m0] obtain m' sp' bs' hs'
    where "deserialize m0 ?bytes = Inr (m', sp')" and "stacks_at m' sp' bs' hs'"
      and "brace_view bs' = [(1, 0x29), (0, 0)]" and "heredoc_view hs' = [(0, 0, 0, None)]"
    unfolding enc bv hv by blast
  then have dec: "\<exists>m' sp' bs' hs'. deserialize m0 ?bytes = Inr (m', sp') \<and>
              stacks_at m' sp' bs' hs' \<and> brace_view bs' = [(1, 0x29), (0, 0)] \<and>
              heredoc_view hs' = [(0, 0, 0, None)]"
    by blast
  have "run_brace_ops tbl (fst (tree_sitter_raku_external_scanner_create empty_memory)) (Some 0)
             [Push 0x28, Push 0x5B, Pop] = Some (Inr (?m4, Some 1)) \<and>
           deref (braces ?m4) 1 = Some ?f1 \<and> brace_stack.depth ?f1 = 1 \<and>
           closing_brace ?f1 = 0x29 \<and> brace_stack.next ?f1 = Some 0 \<and>
           tree_sitter_raku_external_scanner_serialize 1024
             (set_current_brace ?m4 0 (Some 1)) (Some 0) = Some (?bytes, Inr 20)"
    using run d4 ser unfolding sc by simp
  with dec show ?thesis by blast
qed

theorem brace_scenario_witness:
  "40 < BACE_TABLE_MAX ascii_table \<and> BRACE_TABLE ascii_table 0x28 = 0x29 \<and>
   (\<exists>m3 top f.
           run_brace_ops ascii_table (fst (tree_sitter_raku_external_scanner_create empty_memory)) (Some 0)
             [Push 0x28, Push 0x5B, Pop] = Some (Inr (m3, Some top)) \<and>
           deref (braces m3) top = Some f \<and> brace_stack.depth f = 1 \<and>
           closing_brace f = 0x29 \<and> brace_stack.next f = Some 0 \<and>
           tree_sitter_raku_external_scanner_serialize 1024
             (set_current_brace m3 0 (Some top)) (Some 0)
             = Some ([1, 0, 0, 0, 0, 0, 0, 0,  0x29, 0, 0, 0,  0, 0, 0, 0, 0, 0, 0, 0], Inr 20) \<and>
           (\<exists>m' sp' bs' hs'.
              deserialize empty_memory [1, 0, 0, 0, 0, 0, 0, 0,  0x29, 0, 0, 0,  0, 0, 0, 0, 0, 0, 0, 0]
                = Inr (m', sp') \<and>
              stacks_at m' sp' bs' hs' \<and>
              brace_view bs' = [(1, 0x29), (0, 0)] \<and>
              heredoc_view hs' = [(0, 0, 0, None)]))"
proof -
  have h: "40 < BACE_TABLE_MAX ascii_table" "BRACE_TABLE ascii_table 0x28 = 0x29"
    by (simp_all add: ascii_table_def)
  from brace_scenario[OF h, of empty_memory] h show ?thesis by blast
qed

section \<open>Freeing a whole brace stack\<close>

text \<open>
  \<^verbatim>\<open>brace_stack_free\<close> recurses on \<^verbatim>\<open>head->next\<close>: on a well-formed chain it returns, and
  it has released exactly the frames of the chain.
\<close>

lemma deref_release_other: "p \<notin> set ps \<Longrightarrow> deref (release ps cells) p = deref cells p"
  by (induction ps) (auto simp: release_def deref_update_other)

lemma release_Cons: "release (p # ps) cells = (release ps cells)[p := None]"
  by (simp add: release_def)

lemma brace_stack_free_chain:
  "brace_chain m head fs \<Longrightarrow>
   brace_stack_free m head = Some (Inr (m\<lparr>braces := release (map fst fs) (braces m)\<rparr>))"
proof (induction fs arbitrary: head)
  case Nil
  then show ?case by (simp add: brace_stack_free.simps release_def)
next
  case (Cons pf rest)
  obtain p f where pf: "pf = (p, f)" by (cases pf)
  from Cons.prems pf have head: "head = Some p" and d: "deref (braces m) p = Some f"
    and ch: "brace_chain m (brace_stack.next f) rest" by simp_all
  have fresh: "p \<notin> fst ` set rest"
    using Cons.prems unfolding pf by (rule brace_chain_top_fresh)
  have nl: "brace_stack.next f \<noteq> Some p"
  proof
    assume "brace_stack.next f = Some p"
    with ch obtain g rest' where "rest = (p, g) # rest'" by (cases rest) auto
    with fresh show False by simp
  qed
  let ?m' = "m\<lparr>braces := release (map fst rest) (braces m)\<rparr>"
  have rec: "brace_stack_free m (brace_stack.next f) = Some (Inr ?m')"
    by (rule Cons.IH[OF ch])
  have "deref (braces ?m') p = Some f"
    using fresh d by (simp add: deref_release_other)
  then have fr: "free_brace ?m' p = Inr (m\<lparr>braces := release (map fst (pf # rest)) (braces m)\<rparr>)"
    using pf by (simp add: free_brace_def release_Cons)
  show ?case
    unfolding head
    by (subst brace_stack_free.simps) (simp add: d nl rec fr)
qed

section \<open>The read macros check nothing\<close>

text \<open>
  A buffer that declares one array element and then ends: \<^verbatim>\<open>BUF_READ_ARRAY\<close> reads the
  length and copies from beyond the end of the buffer.
\<close>

lemma BUF_READ_ARRAY_unchecked: "BUF_READ_ARRAY 4 (le64 1) 0 = Inl InvalidPointer"
  by (simp add: BUF_READ_ARRAY_def Let_def read_u64_le64 le_val_le_bytes le64_def)

lemma BUF_READ_ARRAY_pointer:
  "BUF_READ_ARRAY sz buffer ptr = Inr (bytes, ptr') \<Longrightarrow> ptr' = ptr + 8"
  by (auto simp: BUF_READ_ARRAY_def Let_def split: if_splits)

end
